theory Spec2Isabelle
  imports Main "HOL-Library.Word"
begin

unbundle bit_operations_syntax

section \<open>Machine types of the driver\<close>

text \<open>
  The driver is built for the LPC 178x (a 32-bit ARM core): \<open>u8\<close>, \<open>u16\<close> and \<open>u32\<close> are the
  kernel's fixed-width unsigned types, \<open>size_t\<close> is a 32-bit unsigned integer, \<open>int\<close> and
  \<open>ssize_t\<close> are 32-bit and \<open>loff_t\<close> is 64-bit, both two's complement (read with \<open>sint\<close>).
  Arithmetic on all of them wraps around, as the word operations do; for the signed types
  this is what the machine's addition does where C leaves the overflow undefined.
\<close>

type_synonym u8 = "8 word"
type_synonym u16 = "16 word"
type_synonym u32 = "32 word"
type_synonym size_t = "32 word"
type_synonym c_int = "32 word"
type_synonym loff_t = "64 word"

section \<open>The register block and the peripheral behind it\<close>

text \<open>The fields of \<open>EEPROM_T\<close> (the reserved gap left out).\<close>

datatype reg = CMD | ADDR | WDATA | RDATA | WSTATE | CLKDIV | PWRDWN
  | INTENCLR | INTENSET | INTSTAT | INTEN | INTSTATCLR | INTSTATSET

text \<open>One bus transaction on the register block, with the value stored or loaded.\<close>

datatype access = Store reg u32 | Load reg u32

text \<open>
  The calls into the three page operations, recorded on entry with their arguments:
  \<open>EEPROM_Read (pageOffset, pageAddr, pData, byteNum)\<close>,
  \<open>EEPROM_WritePageRegister (pageOffset, the byteNum bytes at pData)\<close> and
  \<open>EEPROM_EraseProgramPage (pageAddr)\<close>.
\<close>

datatype pe_call = Call_Read u32 u32 nat u32
  | Call_WritePageRegister u16 "u8 list"
  | Call_EraseProgramPage u16

text \<open>
  The state the driver runs in. The first block is the peripheral: its registers, the
  non-volatile cells (one byte per device address), the 64-byte page register, the status
  bits of the operation in flight (\<open>pending\<close>), the number of status polls that operation
  still takes (\<open>busy\<close>) and the number every new operation takes (\<open>latency\<close>). \<open>bus\<close> records
  the traffic on the register block in program order. The second block is the driver's
  side: the bytes of user memory by address, the global \<open>eeprom_lock\<close>, and the record of
  the page operations called.
\<close>

record machine =
  cmd :: u32
  addr :: u32
  wstate :: u32
  clkdiv :: u32
  pwrdwn :: u32
  intstat :: u32
  cells :: "nat \<Rightarrow> u8"
  page_register :: "nat \<Rightarrow> u8"
  pending :: u32
  busy :: nat
  latency :: nat
  bus :: "access list"
  user :: "nat \<Rightarrow> u8"
  eeprom_lock :: c_int
  calls :: "pe_call list"

definition EEPROM_PAGE_SIZE :: nat where "EEPROM_PAGE_SIZE = 64"
definition EEPROM_PAGE_NUM :: nat where "EEPROM_PAGE_NUM = 63"

definition EEPROM_CMD_8BITS_READ :: u32 where "EEPROM_CMD_8BITS_READ = 0"
definition EEPROM_CMD_8BITS_WRITE :: u32 where "EEPROM_CMD_8BITS_WRITE = 3"
definition EEPROM_CMD_ERASE_PRG_PAGE :: u32 where "EEPROM_CMD_ERASE_PRG_PAGE = 6"
definition EEPROM_CMD_RDPREFETCH :: u32 where "EEPROM_CMD_RDPREFETCH = push_bit 3 1"

definition EEPROM_INT_ENDOFRW :: u32 where "EEPROM_INT_ENDOFRW = push_bit 26 1"
definition EEPROM_INT_ENDOFPROG :: u32 where "EEPROM_INT_ENDOFPROG = push_bit 28 1"

text \<open>
  What the peripheral does on a store. An erase/program command copies the page register
  into the page selected by bits 11..6 of the address register and completes with
  \<open>END_OF_PROG\<close>; a byte stored to the write-data port under the 8-bit write command lands
  in the page register at the offset in bits 5..0 of the address register, which then
  advances, and completes with \<open>END_OF_RW\<close>; the status-clear register clears the status
  bits written as 1. The interrupt-enable registers are not used by the driver.
\<close>

definition program_page :: "nat \<Rightarrow> (nat \<Rightarrow> u8) \<Rightarrow> (nat \<Rightarrow> u8) \<Rightarrow> (nat \<Rightarrow> u8)" where
  "program_page p pr c = (\<lambda>a. if a div 64 = p then pr (a mod 64) else c a)"

fun dev_store :: "reg \<Rightarrow> u32 \<Rightarrow> machine \<Rightarrow> machine" where
  "dev_store CMD v m =
     (if v = EEPROM_CMD_ERASE_PRG_PAGE
      then m\<lparr>cmd := v,
             cells := program_page (unat (drop_bit 6 (addr m) AND 63)) (page_register m) (cells m),
             pending := pending m OR EEPROM_INT_ENDOFPROG,
             busy := latency m\<rparr>
      else m\<lparr>cmd := v\<rparr>)"
| "dev_store ADDR v m = m\<lparr>addr := v\<rparr>"
| "dev_store WDATA v m =
     (if cmd m = EEPROM_CMD_8BITS_WRITE
      then m\<lparr>page_register := (page_register m)(unat (addr m AND 63) := ucast v),
             addr := addr m + 1,
             pending := pending m OR EEPROM_INT_ENDOFRW,
             busy := latency m\<rparr>
      else m)"
| "dev_store WSTATE v m = m\<lparr>wstate := v\<rparr>"
| "dev_store CLKDIV v m = m\<lparr>clkdiv := v\<rparr>"
| "dev_store PWRDWN v m = m\<lparr>pwrdwn := v\<rparr>"
| "dev_store INTSTATCLR v m = m\<lparr>intstat := intstat m AND NOT v\<rparr>"
| "dev_store INTSTATSET v m = m\<lparr>intstat := intstat m OR v\<rparr>"
| "dev_store _ v m = m"

text \<open>
  What the peripheral does on a load. Under the 8-bit read command with pre-fetch the
  read-data port delivers the cell at the address register, which then advances, and the
  read completes with \<open>END_OF_RW\<close>. A load of the status register while the operation in
  flight still takes time sees the old status; once the time is up the pending bits
  appear in the status.
\<close>

fun dev_load :: "reg \<Rightarrow> machine \<Rightarrow> u32 \<times> machine" where
  "dev_load RDATA m =
     (if cmd m = EEPROM_CMD_8BITS_READ OR EEPROM_CMD_RDPREFETCH
      then (ucast (cells m (unat (addr m AND 4095))),
            m\<lparr>addr := addr m + 1,
              pending := pending m OR EEPROM_INT_ENDOFRW,
              busy := latency m\<rparr>)
      else (0, m))"
| "dev_load INTSTAT m =
     (if busy m = 0
      then (intstat m OR pending m, m\<lparr>intstat := intstat m OR pending m, pending := 0\<rparr>)
      else (intstat m, m\<lparr>busy := busy m - 1\<rparr>))"
| "dev_load CMD m = (cmd m, m)"
| "dev_load ADDR m = (addr m, m)"
| "dev_load WSTATE m = (wstate m, m)"
| "dev_load CLKDIV m = (clkdiv m, m)"
| "dev_load PWRDWN m = (pwrdwn m, m)"
| "dev_load _ m = (0, m)"

text \<open>\<open>LPC_EEPROM->r = v\<close> and \<open>LPC_EEPROM->r\<close> as an rvalue.\<close>

definition store :: "reg \<Rightarrow> u32 \<Rightarrow> machine \<Rightarrow> machine" where
  "store r v m = (dev_store r v m)\<lparr>bus := bus m @ [Store r v]\<rparr>"

definition load :: "reg \<Rightarrow> machine \<Rightarrow> u32 \<times> machine" where
  "load r m = (case dev_load r m of (v, m') \<Rightarrow> (v, m'\<lparr>bus := bus m @ [Load r v]\<rparr>))"

section \<open>Register interface\<close>

definition EEPROM_SetCmd :: "u32 \<Rightarrow> machine \<Rightarrow> machine" where
  "EEPROM_SetCmd c m = store CMD c m"

definition EEPROM_SetAddr :: "u32 \<Rightarrow> u32 \<Rightarrow> machine \<Rightarrow> machine" where
  "EEPROM_SetAddr pageAddr pageOffset m = store ADDR (push_bit 6 pageAddr OR pageOffset) m"

definition EEPROM_WriteData :: "u32 \<Rightarrow> machine \<Rightarrow> machine" where
  "EEPROM_WriteData d m = store WDATA d m"

definition EEPROM_ReadData :: "machine \<Rightarrow> u32 \<times> machine" where
  "EEPROM_ReadData m = load RDATA m"

definition EEPROM_DisablePowerDown :: "machine \<Rightarrow> machine" where
  "EEPROM_DisablePowerDown m = store PWRDWN 0 m"

definition EEPROM_SetWaitState :: "u32 \<Rightarrow> machine \<Rightarrow> machine" where
  "EEPROM_SetWaitState ws m = store WSTATE ws m"

definition EEPROM_ClearIntStatus :: "u32 \<Rightarrow> machine \<Rightarrow> machine" where
  "EEPROM_ClearIntStatus msk m = store INTSTATCLR msk m"

definition EEPROM_GetIntStatus :: "machine \<Rightarrow> u32 \<times> machine" where
  "EEPROM_GetIntStatus m = load INTSTAT m"

section \<open>Timing configuration\<close>

text \<open>
  \<open>EEPROM_Init\<close>; the clock rate \<open>cclk\<close> is what \<open>lpc178x_clock_get (CLOCK_PCLK)\<close> returned,
  held in a \<open>u32\<close>.
\<close>

definition EEPROM_Init :: "u32 \<Rightarrow> machine \<Rightarrow> machine" where
  "EEPROM_Init cclk m =
     (let m1 = EEPROM_DisablePowerDown m;
          m2 = store CLKDIV (cclk div 375000 - 1) m1;
          val = (((cclk div 1000000) * 15) div 1000) + 1;
          val = val OR push_bit 8 ((((cclk div 1000000) * 55) div 1000) + 1);
          val = val OR push_bit 16 ((((cclk div 1000000) * 35) div 1000) + 1)
      in EEPROM_SetWaitState val m2)"

section \<open>Page engine\<close>

text \<open>
  The polling loop of \<open>EEPROM_WaitForIntStatus\<close> has no bound in the source: it returns
  only when the status shows every bit of the mask. Not returning is \<open>None\<close>.
\<close>

partial_function (option) poll_status :: "u32 \<Rightarrow> machine \<Rightarrow> machine option" where
  [code]: "poll_status msk m =
     (case EEPROM_GetIntStatus m of
        (status, m') \<Rightarrow> if status AND msk = msk then Some m' else poll_status msk m')"

definition EEPROM_WaitForIntStatus :: "u32 \<Rightarrow> machine \<Rightarrow> machine option" where
  "EEPROM_WaitForIntStatus msk m =
     (case poll_status msk m of
        None \<Rightarrow> None
      | Some m' \<Rightarrow> Some (EEPROM_ClearIntStatus msk m'))"

definition EEPROM_EraseProgramPage :: "u16 \<Rightarrow> machine \<Rightarrow> machine option" where
  "EEPROM_EraseProgramPage pageAddr m =
     (let m0 = m\<lparr>calls := calls m @ [Call_EraseProgramPage pageAddr]\<rparr>;
          m1 = EEPROM_ClearIntStatus EEPROM_CMD_ERASE_PRG_PAGE m0;
          m2 = EEPROM_SetAddr (ucast pageAddr) 0 m1;
          m3 = EEPROM_SetCmd EEPROM_CMD_ERASE_PRG_PAGE m2
      in EEPROM_WaitForIntStatus EEPROM_INT_ENDOFPROG m3)"


text \<open>
  \<open>EEPROM_Read\<close>: \<open>pData\<close> is the address in user memory the caller passed; byte \<open>i\<close> goes
  to \<open>pData + i\<close>.
\<close>

function EEPROM_Read_loop :: "nat \<Rightarrow> u32 \<Rightarrow> u32 \<Rightarrow> machine \<Rightarrow> (u32 \<times> machine) option" where
  "EEPROM_Read_loop pData byteNum i m =
     (if i < byteNum
      then (case EEPROM_ReadData m of
              (d, m1) \<Rightarrow>
                (case EEPROM_WaitForIntStatus EEPROM_INT_ENDOFRW
                        (m1\<lparr>user := (user m1)(pData + unat i := ucast d)\<rparr>) of
                   None \<Rightarrow> None
                 | Some m2 \<Rightarrow> EEPROM_Read_loop pData byteNum (i + 1) m2))
      else Some (i, m))"
  by pat_completeness auto
termination
  by (relation "measure (\<lambda>(pData, byteNum, i, m). unat byteNum - unat i)")
     (simp, unat_arith)

definition EEPROM_Read :: "u32 \<Rightarrow> u32 \<Rightarrow> nat \<Rightarrow> u32 \<Rightarrow> machine \<Rightarrow> (u32 \<times> machine) option" where
  "EEPROM_Read pageOffset pageAddr pData byteNum m =
     (let m0 = m\<lparr>calls := calls m @ [Call_Read pageOffset pageAddr pData byteNum]\<rparr>;
          m1 = EEPROM_ClearIntStatus EEPROM_INT_ENDOFRW m0;
          m2 = EEPROM_SetAddr pageAddr pageOffset m1;
          m3 = EEPROM_SetCmd (EEPROM_CMD_8BITS_READ OR EEPROM_CMD_RDPREFETCH) m2
      in EEPROM_Read_loop pData byteNum 0 m3)"

text \<open>\<open>EEPROM_WritePageRegister\<close>: the bytes come from user memory at \<open>pData\<close>.\<close>

function EEPROM_WritePageRegister_loop ::
    "nat \<Rightarrow> u32 \<Rightarrow> u32 \<Rightarrow> machine \<Rightarrow> (u32 \<times> machine) option" where
  "EEPROM_WritePageRegister_loop pData byteNum i m =
     (if i < byteNum
      then (case EEPROM_WaitForIntStatus EEPROM_INT_ENDOFRW
                   (EEPROM_WriteData (ucast (user m (pData + unat i))) m) of
              None \<Rightarrow> None
            | Some m1 \<Rightarrow> EEPROM_WritePageRegister_loop pData byteNum (i + 1) m1)
      else Some (i, m))"
  by pat_completeness auto
termination
  by (relation "measure (\<lambda>(pData, byteNum, i, m). unat byteNum - unat i)")
     (simp, unat_arith)

definition EEPROM_WritePageRegister ::
    "u16 \<Rightarrow> nat \<Rightarrow> u32 \<Rightarrow> machine \<Rightarrow> (u32 \<times> machine) option" where
  "EEPROM_WritePageRegister pageOffset pData byteNum m =
     (let m0 = m\<lparr>calls := calls m @
                 [Call_WritePageRegister pageOffset
                    (map (\<lambda>i. user m (pData + i)) [0..<unat byteNum])]\<rparr>;
          m1 = EEPROM_ClearIntStatus EEPROM_INT_ENDOFRW m0;
          m2 = EEPROM_SetCmd EEPROM_CMD_8BITS_WRITE m1;
          m3 = EEPROM_SetAddr 0 (ucast pageOffset) m2
      in EEPROM_WritePageRegister_loop pData byteNum 0 m3)"

section \<open>Device facade\<close>

text \<open>
  The error numbers and the whence values of the kernel's headers, which are not part of
  the driver's source.
\<close>

definition EBUSY :: c_int where "EBUSY = 16"
definition EINVAL :: c_int where "EINVAL = 22"

definition SEEK_SET :: c_int where "SEEK_SET = 0"
definition SEEK_CUR :: c_int where "SEEK_CUR = 1"
definition SEEK_END :: c_int where "SEEK_END = 2"

text \<open>
  \<open>eeprom_open\<close> tests the old value of the lock and increments it in either case. The
  module use counter and the debug output are not modelled.
\<close>

definition eeprom_open :: "machine \<Rightarrow> c_int \<times> machine" where
  "eeprom_open m =
     (let old = eeprom_lock m;
          m' = m\<lparr>eeprom_lock := old + 1\<rparr>
      in if 0 <s old then (- EBUSY, m') else (0, m'))"

definition eeprom_release :: "machine \<Rightarrow> c_int \<times> machine" where
  "eeprom_release m = (0, m\<lparr>eeprom_lock := 0\<rparr>)"

text \<open>
  \<open>eeprom_llseek\<close> takes the position \<open>filp->f_pos\<close> and returns the return value together
  with the position afterwards.
\<close>

definition eeprom_llseek :: "loff_t \<Rightarrow> loff_t \<Rightarrow> c_int \<Rightarrow> loff_t \<times> loff_t" where
  "eeprom_llseek f_pos offset whence =
     (case (if whence = SEEK_SET then Some offset
            else if whence = SEEK_CUR then Some (f_pos + offset)
            else if whence = SEEK_END
              then Some (of_nat (EEPROM_PAGE_SIZE * EEPROM_PAGE_NUM) + offset)
            else None) of
        None \<Rightarrow> (- ucast EINVAL, f_pos)
      | Some newpos \<Rightarrow> if newpos <s 0 then (- ucast EINVAL, f_pos) else (newpos, newpos))"

text \<open>
  The transfer loop of \<open>eeprom_read\<close>. Every chunk is stored from \<open>buffer\<close> on: the loop
  advances \<open>*offset\<close> only.
\<close>

function eeprom_read_loop :: "nat \<Rightarrow> size_t \<Rightarrow> loff_t \<Rightarrow> machine \<Rightarrow> (loff_t \<times> machine) option" where
  "eeprom_read_loop buffer to_read offset m =
     (if 0 < to_read
      then (let page = (ucast (signed_drop_bit 6 offset) :: u16);
                page_offset = (ucast (offset AND (of_nat EEPROM_PAGE_SIZE - 1)) :: size_t);
                read_bytes = (if to_read > of_nat EEPROM_PAGE_SIZE - page_offset
                              then of_nat EEPROM_PAGE_SIZE - page_offset else to_read)
            in case EEPROM_Read page_offset (ucast page) buffer read_bytes m of
                 None \<Rightarrow> None
               | Some (n, m1) \<Rightarrow>
                   eeprom_read_loop buffer (to_read - read_bytes) (offset + ucast read_bytes) m1)
      else Some (offset, m))"
  by pat_completeness auto
termination
  apply (relation "measure (\<lambda>(buffer, to_read, offset, m). unat to_read)")
   apply simp
  apply (simp add: EEPROM_PAGE_SIZE_def)
  subgoal premises prems for buffer to_read offset
  proof -
    define po where "po = (ucast (offset AND 63) :: size_t)"
    have "po = ucast offset AND 63"
      by (simp add: po_def unsigned_and_eq)
    then have "po \<le> 63"
      by (simp add: word_and_le1)
    then have a: "unat po \<le> 63"
      by (simp add: word_le_nat_alt)
    have b: "unat (64 - po) = 64 - unat po"
      using a by (subst unat_sub) (simp_all add: word_le_nat_alt)
    have c: "0 < unat to_read"
      using prems(1) by (simp add: word_less_nat_alt)
    have "(64 - po < to_read \<longrightarrow> unat (to_read - (64 - po)) < unat to_read) \<and>
          (\<not> 64 - po < to_read \<longrightarrow> 0 < unat to_read)"
    proof (intro conjI impI)
      assume "64 - po < to_read"
      then have "64 - po \<le> to_read" by simp
      then have "unat (to_read - (64 - po)) = unat to_read - unat (64 - po)"
        by (rule unat_sub)
      with a b c show "unat (to_read - (64 - po)) < unat to_read" by simp
    qed (rule c)
    then show ?thesis
      by (simp only: po_def)
  qed
  done


text \<open>
  \<open>eeprom_read\<close>. \<open>access_ok\<close> is the kernel's check of the user buffer (its definition
  is not part of the driver); it is asked about the buffer and the length as requested.
  \<open>len\<close> is the source's \<open>length\<close>. The result is the return value, the position
  \<open>*offset\<close> afterwards and the machine.
\<close>

definition eeprom_read ::
    "(nat \<Rightarrow> size_t \<Rightarrow> bool) \<Rightarrow> nat \<Rightarrow> size_t \<Rightarrow> loff_t \<Rightarrow> machine
      \<Rightarrow> (c_int \<times> loff_t \<times> machine) option" where
  "eeprom_read access_ok buffer len offset m =
     (if \<not> access_ok buffer len then Some (- EINVAL, offset, m)
      else
        let remaining = (ucast (of_nat (EEPROM_PAGE_SIZE * EEPROM_PAGE_NUM) - offset) :: size_t);
            len = (if len > remaining then remaining else len)
        in if len = 0 then Some (0, offset, m)
           else case eeprom_read_loop buffer len offset m of
                  None \<Rightarrow> None
                | Some (offset', m') \<Rightarrow> Some (ucast len, offset', m'))"

text \<open>The transfer loop of \<open>eeprom_write\<close>, which advances \<open>*offset\<close> and \<open>buffer\<close>.\<close>

function eeprom_write_loop :: "nat \<Rightarrow> size_t \<Rightarrow> loff_t \<Rightarrow> machine \<Rightarrow> (loff_t \<times> machine) option" where
  "eeprom_write_loop buffer to_write offset m =
     (if 0 < to_write
      then (let page = (ucast (signed_drop_bit 6 offset) :: u16);
                page_offset = (ucast (offset AND (of_nat EEPROM_PAGE_SIZE - 1)) :: size_t);
                write_bytes = (if to_write > of_nat EEPROM_PAGE_SIZE - page_offset
                               then of_nat EEPROM_PAGE_SIZE - page_offset else to_write)
            in case EEPROM_WritePageRegister (ucast page_offset) buffer write_bytes m of
                 None \<Rightarrow> None
               | Some (n, m1) \<Rightarrow>
                   (case EEPROM_EraseProgramPage page m1 of
                      None \<Rightarrow> None
                    | Some m2 \<Rightarrow>
                        eeprom_write_loop (buffer + unat write_bytes) (to_write - write_bytes)
                          (offset + ucast write_bytes) m2))
      else Some (offset, m))"
  by pat_completeness auto
termination
  apply (relation "measure (\<lambda>(buffer, to_write, offset, m). unat to_write)")
   apply simp
  apply (simp add: EEPROM_PAGE_SIZE_def)
  subgoal premises prems for buffer to_write offset
  proof -
    define po where "po = (ucast (offset AND 63) :: size_t)"
    have "po = ucast offset AND 63"
      by (simp add: po_def unsigned_and_eq)
    then have "po \<le> 63"
      by (simp add: word_and_le1)
    then have a: "unat po \<le> 63"
      by (simp add: word_le_nat_alt)
    have b: "unat (64 - po) = 64 - unat po"
      using a by (subst unat_sub) (simp_all add: word_le_nat_alt)
    have c: "0 < unat to_write"
      using prems(1) by (simp add: word_less_nat_alt)
    have "(64 - po < to_write \<longrightarrow> unat (to_write - (64 - po)) < unat to_write) \<and>
          (\<not> 64 - po < to_write \<longrightarrow> 0 < unat to_write)"
    proof (intro conjI impI)
      assume "64 - po < to_write"
      then have "64 - po \<le> to_write" by simp
      then have "unat (to_write - (64 - po)) = unat to_write - unat (64 - po)"
        by (rule unat_sub)
      with a b c show "unat (to_write - (64 - po)) < unat to_write" by simp
    qed (rule c)
    then show ?thesis
      by (simp only: po_def)
  qed
  done

definition eeprom_write ::
    "(nat \<Rightarrow> size_t \<Rightarrow> bool) \<Rightarrow> nat \<Rightarrow> size_t \<Rightarrow> loff_t \<Rightarrow> machine
      \<Rightarrow> (c_int \<times> loff_t \<times> machine) option" where
  "eeprom_write access_ok buffer len offset m =
     (if \<not> access_ok buffer len then Some (- EINVAL, offset, m)
      else
        let remaining = (ucast (of_nat (EEPROM_PAGE_SIZE * EEPROM_PAGE_NUM) - offset) :: size_t);
            len = (if len > remaining then remaining else len)
        in if len = 0 then Some (0, offset, m)
           else case eeprom_write_loop buffer len offset m of
                  None \<Rightarrow> None
                | Some (offset', m') \<Rightarrow> Some (ucast len, offset', m'))"


section \<open>Sessions\<close>

text \<open>
  The requests a process sends to the device node. A read or write names the address of
  its buffer in user memory and the requested length; a seek names offset and whence.
\<close>

datatype request = Open | Release | Seek loff_t c_int | Read nat size_t | Write nat size_t

text \<open>
  One request against the handle that holds the position \<open>pos\<close>. The result is the return
  value read as a signed integer, the position afterwards and the machine. The host side
  of \<open>open\<close> follows section 4.5 of the specification: a successful open yields a handle at
  position 0; a failed one leaves the holder's handle alone.
\<close>

fun perform ::
    "(nat \<Rightarrow> size_t \<Rightarrow> bool) \<Rightarrow> request \<Rightarrow> loff_t \<Rightarrow> machine \<Rightarrow> (int \<times> loff_t \<times> machine) option" where
  "perform ok Open pos m =
     (case eeprom_open m of (r, m') \<Rightarrow> Some (sint r, (if r = 0 then 0 else pos), m'))"
| "perform ok Release pos m =
     (case eeprom_release m of (r, m') \<Rightarrow> Some (sint r, pos, m'))"
| "perform ok (Seek offset whence) pos m =
     (case eeprom_llseek pos offset whence of (r, pos') \<Rightarrow> Some (sint r, pos', m))"
| "perform ok (Read buffer len) pos m =
     (case eeprom_read ok buffer len pos m of
        None \<Rightarrow> None
      | Some (r, pos', m') \<Rightarrow> Some (sint r, pos', m'))"
| "perform ok (Write buffer len) pos m =
     (case eeprom_write ok buffer len pos m of
        None \<Rightarrow> None
      | Some (r, pos', m') \<Rightarrow> Some (sint r, pos', m'))"

text \<open>
  A sequence of requests: the return value and the position after each of them, and the
  machine at the end.
\<close>

fun session ::
    "(nat \<Rightarrow> size_t \<Rightarrow> bool) \<Rightarrow> request list \<Rightarrow> loff_t \<Rightarrow> machine
      \<Rightarrow> ((int \<times> loff_t) list \<times> machine) option" where
  "session ok [] pos m = Some ([], m)"
| "session ok (r # rs) pos m =
     (case perform ok r pos m of
        None \<Rightarrow> None
      | Some (ret, pos', m') \<Rightarrow>
          (case session ok rs pos' m' of
             None \<Rightarrow> None
           | Some (out, m'') \<Rightarrow> Some ((ret, pos') # out, m'')))"

section \<open>What the specification says, for comparison\<close>

text \<open>The capacity C of the device in bytes.\<close>

definition capacity :: nat where
  "capacity = EEPROM_PAGE_SIZE * EEPROM_PAGE_NUM"

text \<open>
  The stream translation in the words of section 4.4: while bytes remain, the page is
  pos / P, the page offset pos mod P, the chunk min (remaining, P - page offset); then
  buffer, position and remaining advance by the chunk. Each entry is the buffer address,
  the page, the page offset and the chunk length of one step.
\<close>

function spec_chunks :: "nat \<Rightarrow> nat \<Rightarrow> nat \<Rightarrow> (nat \<times> nat \<times> nat \<times> nat) list" where
  "spec_chunks buf pos remaining =
     (if remaining = 0 then []
      else (let page = pos div 64;
                page_offset = pos mod 64;
                chunk = min remaining (64 - page_offset)
            in (buf, page, page_offset, chunk)
                 # spec_chunks (buf + chunk) (pos + chunk) (remaining - chunk)))"
  by pat_completeness auto
termination
  by (relation "measure (\<lambda>(buf, pos, remaining). remaining)") (auto simp: Let_def)

text \<open>The page-engine calls the specification asks of a read and of a write.\<close>

definition spec_read_calls :: "nat \<Rightarrow> nat \<Rightarrow> nat \<Rightarrow> pe_call list" where
  "spec_read_calls dst pos len =
     map (\<lambda>(buf, page, page_offset, chunk).
            Call_Read (of_nat page_offset) (of_nat page) buf (of_nat chunk))
       (spec_chunks dst pos len)"

text \<open>A read call with its destination replaced by the address \<open>dst\<close>.\<close>

fun same_buffer :: "nat \<Rightarrow> pe_call \<Rightarrow> pe_call" where
  "same_buffer dst (Call_Read pageOffset pageAddr pData byteNum) =
     Call_Read pageOffset pageAddr dst byteNum"
| "same_buffer dst c = c"

definition spec_write_calls :: "(nat \<Rightarrow> u8) \<Rightarrow> nat \<Rightarrow> nat \<Rightarrow> nat \<Rightarrow> pe_call list" where
  "spec_write_calls mem src pos len =
     concat (map (\<lambda>(buf, page, page_offset, chunk).
                    [Call_WritePageRegister (of_nat page_offset) (map (\<lambda>i. mem (buf + i)) [0..<chunk]),
                     Call_EraseProgramPage (of_nat page)])
               (spec_chunks src pos len))"

text \<open>The pages of the erase/program calls in a record of calls, in the order called.\<close>

fun programmed_pages :: "pe_call list \<Rightarrow> u16 list" where
  "programmed_pages [] = []"
| "programmed_pages (Call_EraseProgramPage p # cs) = p # programmed_pages cs"
| "programmed_pages (c # cs) = programmed_pages cs"

text \<open>The bytes a record of calls moves between user memory and the peripheral.\<close>

fun byte_count :: "pe_call \<Rightarrow> nat" where
  "byte_count (Call_Read pageOffset pageAddr pData byteNum) = unat byteNum"
| "byte_count (Call_WritePageRegister pageOffset bytes) = length bytes"
| "byte_count (Call_EraseProgramPage pageAddr) = 0"

definition transferred :: "pe_call list \<Rightarrow> nat" where
  "transferred cs = sum_list (map byte_count cs)"

text \<open>
  The preconditions of the page operations in section 4.3: a page below the page count,
  an offset inside the page, and offset plus length within the page.
\<close>

fun pe_precondition :: "pe_call \<Rightarrow> bool" where
  "pe_precondition (Call_Read pageOffset pageAddr pData byteNum) =
     (unat pageAddr < EEPROM_PAGE_NUM \<and> unat pageOffset < EEPROM_PAGE_SIZE
      \<and> unat pageOffset + unat byteNum \<le> EEPROM_PAGE_SIZE)"
| "pe_precondition (Call_WritePageRegister pageOffset bytes) =
     (unat pageOffset < EEPROM_PAGE_SIZE \<and> unat pageOffset + length bytes \<le> EEPROM_PAGE_SIZE)"
| "pe_precondition (Call_EraseProgramPage pageAddr) = (unat pageAddr < EEPROM_PAGE_NUM)"

text \<open>A wait-state field in the words of section 4.2, for the phase time \<open>ns\<close>.\<close>

definition spec_wait_state :: "nat \<Rightarrow> nat \<Rightarrow> nat" where
  "spec_wait_state f_pclk ns = ((f_pclk div 1000000) * ns) div 1000 + 1"

text \<open>
  The seek of section 4.5 on the integers: the new position by whence, \<open>INVALID\<close> (-22) for
  an invalid whence or a negative new position, else the new position set and returned.
  The result is the return value and the position afterwards.
\<close>

definition spec_seek :: "int \<Rightarrow> int \<Rightarrow> c_int \<Rightarrow> int \<times> int" where
  "spec_seek pos offset whence =
     (case (if whence = SEEK_SET then Some offset
            else if whence = SEEK_CUR then Some (pos + offset)
            else if whence = SEEK_END then Some (int capacity + offset)
            else None) of
        None \<Rightarrow> (- 22, pos)
      | Some newpos \<Rightarrow> if newpos < 0 then (- 22, pos) else (newpos, newpos))"

text \<open>The integers a \<open>loff_t\<close> holds.\<close>

definition in_loff_t :: "int \<Rightarrow> bool" where
  "in_loff_t i \<longleftrightarrow> - (2 ^ 63) \<le> i \<and> i < 2 ^ 63"

text \<open>
  Every seek of a sequence of requests returned at most the capacity: \<open>out\<close> holds the
  return value and the position after each request.
\<close>

fun is_seek :: "request \<Rightarrow> bool" where
  "is_seek (Seek offset whence) = True"
| "is_seek r = False"

definition seeks_within_capacity :: "request list \<Rightarrow> (int \<times> loff_t) list \<Rightarrow> bool" where
  "seeks_within_capacity rs out =
     list_all2 (\<lambda>r (ret, pos). \<not> is_seek r \<or> ret \<le> int capacity) rs out"

definition positions_within_capacity :: "(int \<times> loff_t) list \<Rightarrow> bool" where
  "positions_within_capacity out =
     list_all (\<lambda>(ret, pos). 0 \<le> sint pos \<and> sint pos \<le> int capacity) out"

text \<open>
  The open state of section 4.5 as a two-state machine: the return values of a sequence
  of open and release calls, from the state \<open>held\<close>.
\<close>

fun spec_open_state :: "request list \<Rightarrow> bool \<Rightarrow> int list" where
  "spec_open_state [] held = []"
| "spec_open_state (Open # rs) held =
     (if held then - 16 # spec_open_state rs True else 0 # spec_open_state rs True)"
| "spec_open_state (Release # rs) held = 0 # spec_open_state rs False"
| "spec_open_state (r # rs) held = spec_open_state rs held"

section \<open>Machines at rest\<close>

text \<open>
  No operation of the peripheral is in flight and the status shows no completed page
  program. Every driver function leaves the machine so.
\<close>

definition settled :: "machine \<Rightarrow> bool" where
  "settled m \<longleftrightarrow> pending m = 0 \<and> busy m = 0 \<and> \<not> bit (intstat m) 28"

text \<open>
  A machine at rest for the concrete scenarios: registers at zero, cell \<open>a\<close> holding the
  byte \<open>a mod 256\<close>, user memory holding \<open>bytes\<close> from address 0 on and zero beyond, every
  operation of the peripheral taking \<open>lat\<close> status polls.
\<close>

definition user_bytes :: "u8 list \<Rightarrow> nat \<Rightarrow> u8" where
  "user_bytes bytes a = (if a < length bytes then bytes ! a else 0)"

definition cell_pattern :: "nat \<Rightarrow> u8" where
  "cell_pattern a = of_nat a"

definition blank_page_register :: "nat \<Rightarrow> u8" where
  "blank_page_register a = 0"

definition bench :: "nat \<Rightarrow> u8 list \<Rightarrow> machine" where
  "bench lat bytes =
     \<lparr>cmd = 0, addr = 0, wstate = 0, clkdiv = 0, pwrdwn = 0, intstat = 0,
      cells = cell_pattern, page_register = blank_page_register, pending = 0, busy = 0,
      latency = lat, bus = [], user = user_bytes bytes, eeprom_lock = 0, calls = []\<rparr>"

text \<open>
  The buffer check of a kernel without memory protection, which is what the driver is
  built for: every buffer passes.
\<close>

definition every_buffer :: "nat \<Rightarrow> size_t \<Rightarrow> bool" where
  "every_buffer buffer len = True"

text \<open>The bytes of user memory from \<open>a\<close> on, \<open>n\<close> of them.\<close>

definition user_window :: "machine \<Rightarrow> nat \<Rightarrow> nat \<Rightarrow> u8 list" where
  "user_window m a n = map (user m) [a..<a + n]"

text \<open>
  What a caller sees of a read or a write: the return value, the position afterwards, and
  either the \<open>n\<close> bytes then in user memory from \<open>a\<close> on or the page operations called.
\<close>

fun read_back :: "(c_int \<times> loff_t \<times> machine) option \<Rightarrow> nat \<Rightarrow> nat \<Rightarrow> (c_int \<times> loff_t \<times> u8 list) option" where
  "read_back None a n = None"
| "read_back (Some (r, pos, m)) a n = Some (r, pos, user_window m a n)"

fun called :: "(c_int \<times> loff_t \<times> machine) option \<Rightarrow> (c_int \<times> loff_t \<times> pe_call list) option" where
  "called None = None"
| "called (Some (r, pos, m)) = Some (r, pos, calls m)"

text \<open>The open state of the two-state machine after a sequence of calls.\<close>

fun spec_held :: "request list \<Rightarrow> bool \<Rightarrow> bool" where
  "spec_held [] held = held"
| "spec_held (Open # rs) held = spec_held rs True"
| "spec_held (Release # rs) held = spec_held rs False"
| "spec_held (r # rs) held = spec_held rs held"

section \<open>What crosses the register block\<close>

text \<open>
  Three views of the recorded bus traffic: the values loaded from the read-data port, the
  values stored to the write-data port, and the stores to the address and command
  registers, each in bus order.
\<close>

fun rdata_loads :: "access list \<Rightarrow> u32 list" where
  "rdata_loads [] = []"
| "rdata_loads (Load RDATA v # es) = v # rdata_loads es"
| "rdata_loads (e # es) = rdata_loads es"

fun wdata_stores :: "access list \<Rightarrow> u32 list" where
  "wdata_stores [] = []"
| "wdata_stores (Store WDATA v # es) = v # wdata_stores es"
| "wdata_stores (e # es) = wdata_stores es"

fun control_stores :: "access list \<Rightarrow> access list" where
  "control_stores [] = []"
| "control_stores (Store ADDR v # es) = Store ADDR v # control_stores es"
| "control_stores (Store CMD v # es) = Store CMD v # control_stores es"
| "control_stores (e # es) = control_stores es"

text \<open>
  The erase/program commands in a stretch of bus traffic: for each store of the
  erase/program command, the address stored last before it (\<open>a\<close> if none was).
\<close>

fun erase_programs :: "u32 \<Rightarrow> access list \<Rightarrow> u32 list" where
  "erase_programs a [] = []"
| "erase_programs a (Store ADDR v # es) = erase_programs v es"
| "erase_programs a (Store CMD v # es) =
     (if v = EEPROM_CMD_ERASE_PRG_PAGE then a # erase_programs a es else erase_programs a es)"
| "erase_programs a (e # es) = erase_programs a es"

text \<open>
  The address and command stores that section 4.3 prescribes for the chunks of a read
  (per chunk: the address (page << 6) | offset, then the 8-bit read command with
  pre-fetch) and of a write (per chunk: the 8-bit write command and the address
  (0 << 6) | offset of the page-register write, then the address (page << 6) | 0 and the
  erase/program command of the page program).
\<close>

definition spec_read_control :: "(nat \<times> nat \<times> nat \<times> nat) list \<Rightarrow> access list" where
  "spec_read_control chunks =
     concat (map (\<lambda>(buf, page, page_offset, chunk).
                    [Store ADDR (push_bit 6 (of_nat page) OR of_nat page_offset),
                     Store CMD (EEPROM_CMD_8BITS_READ OR EEPROM_CMD_RDPREFETCH)])
               chunks)"

definition spec_write_control :: "(nat \<times> nat \<times> nat \<times> nat) list \<Rightarrow> access list" where
  "spec_write_control chunks =
     concat (map (\<lambda>(buf, page, page_offset, chunk).
                    [Store CMD EEPROM_CMD_8BITS_WRITE,
                     Store ADDR (push_bit 6 0 OR of_nat page_offset),
                     Store ADDR (push_bit 6 (of_nat page) OR 0),
                     Store CMD EEPROM_CMD_ERASE_PRG_PAGE])
               chunks)"

text \<open>
  User memory after the chunks of a read have been stored the way \<open>eeprom_read\<close> stores
  them: every chunk from the address \<open>dst\<close> on (the loop passes the same \<open>buffer\<close> to every
  \<open>EEPROM_Read\<close>), byte j of a chunk being the device byte at 64 * page + page offset + j.
\<close>

fun chunks_stored_at ::
    "nat \<Rightarrow> (nat \<Rightarrow> u8) \<Rightarrow> (nat \<times> nat \<times> nat \<times> nat) list \<Rightarrow> (nat \<Rightarrow> u8) \<Rightarrow> nat \<Rightarrow> u8" where
  "chunks_stored_at dst dev [] mem = mem"
| "chunks_stored_at dst dev ((buf, page, page_offset, chunk) # cs) mem =
     chunks_stored_at dst dev cs
       (\<lambda>a. if dst \<le> a \<and> a < dst + chunk then dev (64 * page + page_offset + (a - dst))
            else mem a)"

text \<open>
  Page register and cells after the chunks of a write: the bytes of each chunk, taken from
  user memory at the chunk's buffer address, are put into the page register from the page
  offset on, and the page register is then copied into the chunk's page.
\<close>

fun chunks_programmed ::
    "(nat \<Rightarrow> u8) \<Rightarrow> (nat \<times> nat \<times> nat \<times> nat) list \<Rightarrow> (nat \<Rightarrow> u8) \<times> (nat \<Rightarrow> u8)
      \<Rightarrow> (nat \<Rightarrow> u8) \<times> (nat \<Rightarrow> u8)" where
  "chunks_programmed mem [] (pr, dev) = (pr, dev)"
| "chunks_programmed mem ((buf, page, page_offset, chunk) # cs) (pr, dev) =
     (let pr' = (\<lambda>x. if page_offset \<le> x \<and> x < page_offset + chunk
                       then mem (buf + (x - page_offset)) else pr x)
      in chunks_programmed mem cs (pr', program_page page pr' dev))"

text \<open>
  The opens since the last release can all be counted in the lock: none of them finds the
  lock at 2147483647. \<open>n\<close> is the count so far.
\<close>

fun opens_countable :: "request list \<Rightarrow> int \<Rightarrow> bool" where
  "opens_countable [] n = True"
| "opens_countable (Open # rs) n = (n < 2147483647 \<and> opens_countable rs (n + 1))"
| "opens_countable (Release # rs) n = opens_countable rs 0"
| "opens_countable (r # rs) n = opens_countable rs n"

section \<open>Facts about the machine integers\<close>

lemma unat32_bound: "unat (w::u32) < 4294967296"
  using unsigned_less [of w, where 'a = nat] by simp

lemma wait_state_word:
  fixes f :: u32
  assumes "k \<le> 1000"
  shows "((f div 1000000) * of_nat k) div 1000 + 1 = (of_nat (spec_wait_state (unat f) k) :: u32)"
proof -
  have q: "unat (f div 1000000) = unat f div 1000000"
    by (simp add: unat_div)
  have qb: "unat f div 1000000 \<le> 4294"
    using unat32_bound [of f] by simp
  have k: "unat (of_nat k :: u32) = k"
    using assms by (simp add: unat_of_nat)
  have b: "(unat f div 1000000) * k < 4294967296"
    using qb assms mult_le_mono [of "unat f div 1000000" 4294 k 1000] by simp
  then have "unat (f div 1000000) * unat (of_nat k :: u32) < 2 ^ LENGTH(32)"
    by (simp add: q k)
  then have p: "unat ((f div 1000000) * of_nat k) = (unat f div 1000000) * k"
    by (simp add: unat_mult_lem [THEN iffD1] q k)
  have d: "unat (((f div 1000000) * of_nat k) div 1000) = ((unat f div 1000000) * k) div 1000"
    by (simp add: unat_div p)
  have "((f div 1000000) * of_nat k) div 1000 = (of_nat (((unat f div 1000000) * k) div 1000) :: u32)"
    using b div_le_dividend [of "(unat f div 1000000) * k" 1000]
    by (simp add: word_unat_eq_iff d unat_of_nat)
  then show ?thesis
    by (simp add: spec_wait_state_def)
qed

section \<open>Timing configuration\<close>

text \<open>
  Claim C9. For every peripheral clock rate \<open>f\<close>, \<open>EEPROM_Init\<close> stores 0 to the power-down
  register, then \<open>f / 375000 - 1\<close> to the clock divider, then
  \<open>ws1 | (ws2 << 8) | (ws3 << 16)\<close> to the wait-state register, where
  \<open>ws = ((f / 1000000) * ns) / 1000 + 1\<close> for \<open>ns\<close> = 15, 55 and 35, the divisions being
  those of the natural numbers. The divider is computed in 32 bits, so a rate below
  375 kHz gives the 32-bit value of -1.
\<close>

theorem EEPROM_Init_programs_timing:
  "pwrdwn (EEPROM_Init f m) = 0
   \<and> clkdiv (EEPROM_Init f m) = word_of_int (int (unat f div 375000) - 1)
   \<and> wstate (EEPROM_Init f m)
       = of_nat (spec_wait_state (unat f) 15)
         OR push_bit 8 (of_nat (spec_wait_state (unat f) 55))
         OR push_bit 16 (of_nat (spec_wait_state (unat f) 35))
   \<and> bus (EEPROM_Init f m)
       = bus m @ [Store PWRDWN 0, Store CLKDIV (clkdiv (EEPROM_Init f m)),
                  Store WSTATE (wstate (EEPROM_Init f m))]"
proof -
  have c: "f div 375000 - 1 = word_of_int (int (unat f div 375000) - 1)"
    by (simp add: word_arith_nat_div)
  have w: "((f div 1000000) * 15) div 1000 + 1 = (of_nat (spec_wait_state (unat f) 15) :: u32)"
          "((f div 1000000) * 55) div 1000 + 1 = (of_nat (spec_wait_state (unat f) 55) :: u32)"
          "((f div 1000000) * 35) div 1000 + 1 = (of_nat (spec_wait_state (unat f) 35) :: u32)"
    using wait_state_word [of 15 f] wait_state_word [of 55 f] wait_state_word [of 35 f]
    by simp_all
  show ?thesis
    by (simp add: EEPROM_Init_def EEPROM_DisablePowerDown_def EEPROM_SetWaitState_def
        store_def Let_def c w or.assoc)
qed

text \<open>At a peripheral clock of 60 MHz: divider 159, wait states 1, 4 and 3.\<close>

theorem EEPROM_Init_programs_timing_witness:
  "pwrdwn (EEPROM_Init 60000000 (bench 0 [])) = 0
   \<and> clkdiv (EEPROM_Init 60000000 (bench 0 [])) = 159
   \<and> wstate (EEPROM_Init 60000000 (bench 0 [])) = 197633
   \<and> bus (EEPROM_Init 60000000 (bench 0 []))
       = [Store PWRDWN 0, Store CLKDIV 159, Store WSTATE 197633]"
  using EEPROM_Init_programs_timing [of 60000000 "bench 0 []"]
  by (simp add: spec_wait_state_def bench_def)


section \<open>The page engine returns\<close>

lemma test_bit_mask:
  fixes x :: u32
  assumes "k < 32"
  shows "x AND push_bit k 1 = push_bit k 1 \<longleftrightarrow> bit x k"
proof
  assume "x AND push_bit k 1 = push_bit k 1"
  then have "bit (x AND push_bit k 1) k = bit (push_bit k 1 :: u32) k" by simp
  with assms show "bit x k" by (simp add: bit_simps)
next
  assume "bit x k"
  with assms show "x AND push_bit k 1 = push_bit k 1"
    by (intro bit_word_eqI) (auto simp: bit_simps)
qed

lemma poll_status_completes:
  assumes "(intstat m OR pending m) AND msk = msk" and "intstat m AND msk \<noteq> msk"
  shows "poll_status msk m =
           Some (m\<lparr>intstat := intstat m OR pending m, pending := 0, busy := 0,
                   bus := bus m @ replicate (busy m) (Load INTSTAT (intstat m))
                            @ [Load INTSTAT (intstat m OR pending m)]\<rparr>)"
  using assms
proof (induction "busy m" arbitrary: m)
  case 0
  then show ?case
    by (subst poll_status.simps) (simp add: EEPROM_GetIntStatus_def load_def)
next
  case (Suc n)
  let ?m1 = "m\<lparr>busy := n, bus := bus m @ [Load INTSTAT (intstat m)]\<rparr>"
  have b: "busy m = Suc n" using Suc.hyps(2) by simp
  have "poll_status msk m = poll_status msk ?m1"
    using Suc.prems(2) b
    by (subst poll_status.simps) (simp add: EEPROM_GetIntStatus_def load_def)
  also have "\<dots> = Some (?m1\<lparr>intstat := intstat ?m1 OR pending ?m1, pending := 0, busy := 0,
                   bus := bus ?m1 @ replicate (busy ?m1) (Load INTSTAT (intstat ?m1))
                            @ [Load INTSTAT (intstat ?m1 OR pending ?m1)]\<rparr>)"
    using Suc.prems by (intro Suc.hyps(1)) simp_all
  finally show ?case
    by (simp add: b)
qed

lemma EEPROM_WaitForIntStatus_completes:
  assumes "k < 32" and "bit (pending m) k" and "\<not> bit (intstat m) k"
  shows "EEPROM_WaitForIntStatus (push_bit k 1) m =
           Some (m\<lparr>intstat := (intstat m OR pending m) AND NOT (push_bit k 1),
                   pending := 0, busy := 0,
                   bus := bus m @ replicate (busy m) (Load INTSTAT (intstat m))
                            @ [Load INTSTAT (intstat m OR pending m),
                               Store INTSTATCLR (push_bit k 1)]\<rparr>)"
proof -
  have "bit (intstat m OR pending m) k"
    using assms by (simp add: bit_simps)
  then have a: "(intstat m OR pending m) AND push_bit k 1 = push_bit k 1"
    by (rule test_bit_mask [THEN iffD2, OF assms(1)])
  have b: "intstat m AND push_bit k 1 \<noteq> push_bit k 1"
    using assms(3) test_bit_mask [OF assms(1), of "intstat m"] by blast
  show ?thesis
    unfolding EEPROM_WaitForIntStatus_def poll_status_completes [OF a b]
    by (simp add: EEPROM_ClearIntStatus_def store_def)
qed


declare EEPROM_Read_loop.simps [simp del]
declare EEPROM_WritePageRegister_loop.simps [simp del]
declare eeprom_read_loop.simps [simp del]
declare eeprom_write_loop.simps [simp del]
declare spec_chunks.simps [simp del]

lemma wait_end_of_rw:
  assumes "bit (pending m) 26" and "\<not> bit (intstat m) 26"
  shows "EEPROM_WaitForIntStatus EEPROM_INT_ENDOFRW m =
           Some (m\<lparr>intstat := (intstat m OR pending m) AND NOT EEPROM_INT_ENDOFRW,
                   pending := 0, busy := 0,
                   bus := bus m @ replicate (busy m) (Load INTSTAT (intstat m))
                            @ [Load INTSTAT (intstat m OR pending m),
                               Store INTSTATCLR EEPROM_INT_ENDOFRW]\<rparr>)"
  unfolding EEPROM_INT_ENDOFRW_def using assms
  by (intro EEPROM_WaitForIntStatus_completes) simp_all

lemma wait_end_of_prog:
  assumes "bit (pending m) 28" and "\<not> bit (intstat m) 28"
  shows "EEPROM_WaitForIntStatus EEPROM_INT_ENDOFPROG m =
           Some (m\<lparr>intstat := (intstat m OR pending m) AND NOT EEPROM_INT_ENDOFPROG,
                   pending := 0, busy := 0,
                   bus := bus m @ replicate (busy m) (Load INTSTAT (intstat m))
                            @ [Load INTSTAT (intstat m OR pending m),
                               Store INTSTATCLR EEPROM_INT_ENDOFPROG]\<rparr>)"
  unfolding EEPROM_INT_ENDOFPROG_def using assms
  by (intro EEPROM_WaitForIntStatus_completes) simp_all

lemma bits_of_masks [simp]:
  "bit EEPROM_INT_ENDOFRW n \<longleftrightarrow> n = 26"
  "bit EEPROM_INT_ENDOFPROG n \<longleftrightarrow> n = 28"
  unfolding EEPROM_INT_ENDOFRW_def EEPROM_INT_ENDOFPROG_def bit_push_bit_iff bit_1_iff
  by (auto simp: possible_bit_word)

lemma EEPROM_Read_loop_returns:
  assumes "settled m" and "\<not> bit (intstat m) 26"
    and "cmd m = EEPROM_CMD_8BITS_READ OR EEPROM_CMD_RDPREFETCH" and "i \<le> n"
  shows "\<exists>m'. EEPROM_Read_loop pData n i m = Some (n, m') \<and> settled m' \<and> calls m' = calls m"
  using assms
proof (induction "unat n - unat i" arbitrary: i m)
  case 0
  then have "i = n"
    by (simp add: word_le_nat_alt word_unat_eq_iff)
  with 0 show ?case
    by (subst EEPROM_Read_loop.simps) simp
next
  case (Suc d)
  then have lt: "i < n"
    by (simp add: word_less_nat_alt)
  then have nxt: "unat (i + 1) = Suc (unat i)"
    by unat_arith
  obtain v m1 where rd: "EEPROM_ReadData m = (v, m1)"
    by (cases "EEPROM_ReadData m")
  let ?m2 = "m1\<lparr>user := (user m1)(pData + unat i := ucast v)\<rparr>"
  have m1: "m1 = m\<lparr>addr := addr m + 1, pending := pending m OR EEPROM_INT_ENDOFRW,
                      busy := latency m, bus := bus m @ [Load RDATA v]\<rparr>"
    using rd Suc.prems(3) by (auto simp: EEPROM_ReadData_def load_def)
  have w: "\<exists>m3. EEPROM_WaitForIntStatus EEPROM_INT_ENDOFRW ?m2 = Some m3 \<and> settled m3
             \<and> \<not> bit (intstat m3) 26 \<and> cmd m3 = cmd m \<and> calls m3 = calls m"
    using Suc.prems(1,2)
    by (subst wait_end_of_rw) (simp_all add: m1 settled_def bit_simps)
  then obtain m3 where m3: "EEPROM_WaitForIntStatus EEPROM_INT_ENDOFRW ?m2 = Some m3"
    "settled m3" "\<not> bit (intstat m3) 26" "cmd m3 = cmd m" "calls m3 = calls m"
    by blast
  have "\<exists>m'. EEPROM_Read_loop pData n (i + 1) m3 = Some (n, m') \<and> settled m' \<and> calls m' = calls m3"
    using Suc.hyps(2) lt nxt m3 Suc.prems(3)
    by (intro Suc.hyps(1)) (simp_all add: word_le_nat_alt word_less_nat_alt)
  then show ?case
    using lt rd m3 by (subst EEPROM_Read_loop.simps) simp
qed


lemma EEPROM_Read_returns:
  assumes "settled m"
  shows "\<exists>m'. EEPROM_Read pageOffset pageAddr pData n m = Some (n, m') \<and> settled m'
           \<and> calls m' = calls m @ [Call_Read pageOffset pageAddr pData n]"
proof -
  let ?m0 = "m\<lparr>calls := calls m @ [Call_Read pageOffset pageAddr pData n]\<rparr>"
  let ?m3 = "EEPROM_SetCmd (EEPROM_CMD_8BITS_READ OR EEPROM_CMD_RDPREFETCH)
               (EEPROM_SetAddr pageAddr pageOffset
                 (EEPROM_ClearIntStatus EEPROM_INT_ENDOFRW ?m0))"
  have ne: "EEPROM_CMD_8BITS_READ OR EEPROM_CMD_RDPREFETCH \<noteq> EEPROM_CMD_ERASE_PRG_PAGE"
    by (simp add: EEPROM_CMD_8BITS_READ_def EEPROM_CMD_RDPREFETCH_def
        EEPROM_CMD_ERASE_PRG_PAGE_def)
  have "settled ?m3" "\<not> bit (intstat ?m3) 26"
    "cmd ?m3 = EEPROM_CMD_8BITS_READ OR EEPROM_CMD_RDPREFETCH"
    "calls ?m3 = calls m @ [Call_Read pageOffset pageAddr pData n]"
    using assms ne
    by (simp_all add: settled_def EEPROM_SetCmd_def EEPROM_SetAddr_def
        EEPROM_ClearIntStatus_def store_def bit_simps)
  then show ?thesis
    using EEPROM_Read_loop_returns [of ?m3 0 n pData]
    by (simp add: EEPROM_Read_def Let_def)
qed

lemma EEPROM_WritePageRegister_loop_returns:
  assumes "settled m" and "\<not> bit (intstat m) 26"
    and "cmd m = EEPROM_CMD_8BITS_WRITE" and "i \<le> n"
  shows "\<exists>m'. EEPROM_WritePageRegister_loop pData n i m = Some (n, m') \<and> settled m'
           \<and> calls m' = calls m \<and> user m' = user m"
  using assms
proof (induction "unat n - unat i" arbitrary: i m)
  case 0
  then have "i = n"
    by (simp add: word_le_nat_alt word_unat_eq_iff)
  with 0 show ?case
    by (subst EEPROM_WritePageRegister_loop.simps) simp
next
  case (Suc d)
  then have lt: "i < n"
    by (simp add: word_less_nat_alt)
  then have nxt: "unat (i + 1) = Suc (unat i)"
    by unat_arith
  let ?m1 = "EEPROM_WriteData (ucast (user m (pData + unat i))) m"
  have w: "\<exists>m2. EEPROM_WaitForIntStatus EEPROM_INT_ENDOFRW ?m1 = Some m2 \<and> settled m2
             \<and> \<not> bit (intstat m2) 26 \<and> cmd m2 = cmd m \<and> calls m2 = calls m
             \<and> user m2 = user m"
    using Suc.prems(1,2,3)
    by (subst wait_end_of_rw)
       (simp_all add: EEPROM_WriteData_def store_def settled_def bit_simps)
  then obtain m2 where m2: "EEPROM_WaitForIntStatus EEPROM_INT_ENDOFRW ?m1 = Some m2"
    "settled m2" "\<not> bit (intstat m2) 26" "cmd m2 = cmd m" "calls m2 = calls m"
    "user m2 = user m"
    by blast
  have "\<exists>m'. EEPROM_WritePageRegister_loop pData n (i + 1) m2 = Some (n, m') \<and> settled m'
          \<and> calls m' = calls m2 \<and> user m' = user m2"
    using Suc.hyps(2) lt nxt m2 Suc.prems(3)
    by (intro Suc.hyps(1)) (simp_all add: word_le_nat_alt word_less_nat_alt)
  then show ?case
    using lt m2 by (subst EEPROM_WritePageRegister_loop.simps) simp
qed

lemma EEPROM_WritePageRegister_returns:
  assumes "settled m"
  shows "\<exists>m'. EEPROM_WritePageRegister pageOffset pData n m = Some (n, m') \<and> settled m'
           \<and> calls m' = calls m @ [Call_WritePageRegister pageOffset
                                      (map (\<lambda>i. user m (pData + i)) [0..<unat n])]
           \<and> user m' = user m"
proof -
  let ?c = "Call_WritePageRegister pageOffset (map (\<lambda>i. user m (pData + i)) [0..<unat n])"
  let ?m0 = "m\<lparr>calls := calls m @ [?c]\<rparr>"
  let ?m3 = "EEPROM_SetAddr 0 (ucast pageOffset)
               (EEPROM_SetCmd EEPROM_CMD_8BITS_WRITE
                 (EEPROM_ClearIntStatus EEPROM_INT_ENDOFRW ?m0))"
  have ne: "EEPROM_CMD_8BITS_WRITE \<noteq> EEPROM_CMD_ERASE_PRG_PAGE"
    by (simp add: EEPROM_CMD_8BITS_WRITE_def EEPROM_CMD_ERASE_PRG_PAGE_def)
  have "settled ?m3" "\<not> bit (intstat ?m3) 26" "cmd ?m3 = EEPROM_CMD_8BITS_WRITE"
    "calls ?m3 = calls m @ [?c]" "user ?m3 = user m"
    using assms ne
    by (simp_all add: settled_def EEPROM_SetCmd_def EEPROM_SetAddr_def
        EEPROM_ClearIntStatus_def store_def bit_simps)
  then show ?thesis
    using EEPROM_WritePageRegister_loop_returns [of ?m3 0 n pData]
    by (simp add: EEPROM_WritePageRegister_def Let_def)
qed

lemma EEPROM_EraseProgramPage_returns:
  assumes "settled m"
  shows "\<exists>m'. EEPROM_EraseProgramPage pageAddr m = Some m' \<and> settled m'
           \<and> calls m' = calls m @ [Call_EraseProgramPage pageAddr] \<and> user m' = user m"
  using assms
  unfolding EEPROM_EraseProgramPage_def Let_def
  by (subst wait_end_of_prog)
     (simp_all add: settled_def EEPROM_SetCmd_def EEPROM_SetAddr_def
        EEPROM_ClearIntStatus_def store_def bit_simps)

section \<open>The arithmetic of the stream translation\<close>

lemma and63: "(x::'a::len word) AND 63 = take_bit 6 x"
  by (simp add: take_bit_eq_mask mask_eq_exp_minus_1)

lemma unat_page_offset:
  "unat (ucast ((offset::loff_t) AND (of_nat EEPROM_PAGE_SIZE - 1)) :: size_t) = unat offset mod 64"
proof -
  have "unat (ucast (take_bit 6 offset) :: size_t) = take_bit 32 (take_bit 6 (unat offset))"
    by (simp only: unsigned_ucast_eq unsigned_take_bit_eq) simp
  also have "\<dots> = unat offset mod 64"
    by (simp add: take_bit_nat_def)
  finally show ?thesis
    by (simp add: EEPROM_PAGE_SIZE_def and63)
qed

lemma unat_page:
  "unat (ucast (signed_drop_bit 6 (offset::loff_t)) :: u16) = (unat offset div 64) mod 65536"
proof -
  have a: "(ucast (signed_drop_bit 6 offset) :: u16) = ucast (drop_bit 6 offset)"
    by (rule bit_word_eqI) (auto simp: bit_simps)
  have c: "unat (ucast y :: u16) = unat y mod 65536" for y :: loff_t
    by (simp add: unsigned_ucast_eq take_bit_nat_def)
  have d: "unat (drop_bit 6 offset) = unat offset div 64"
    by (simp add: unat_drop_bit_eq drop_bit_nat_def)
  show ?thesis
    by (simp only: a c d)
qed

lemma unat_ucast_16_32: "unat (ucast (w::u16) :: u32) = unat w"
  using unsigned_less [of w, where 'a = nat]
  by (simp add: unsigned_ucast_eq take_bit_nat_def)

lemma unat_ucast_32_16: "unat (w::u32) < 65536 \<Longrightarrow> unat (ucast w :: u16) = unat w"
  by (simp add: unsigned_ucast_eq take_bit_nat_def)

lemma unat_ucast_32_64: "unat (ucast (w::u32) :: loff_t) = unat w"
  using unat32_bound [of w] by (simp add: unsigned_ucast_eq take_bit_nat_def)

lemma unat_chunk:
  fixes to_read po :: size_t
  assumes "unat po < 64" and "0 < to_read"
  shows "unat (if to_read > of_nat EEPROM_PAGE_SIZE - po then of_nat EEPROM_PAGE_SIZE - po
               else to_read)
         = min (unat to_read) (64 - unat po)"
proof -
  have b: "unat (64 - po) = 64 - unat po"
    using assms(1) by (subst unat_sub) (simp_all add: word_le_nat_alt)
  show ?thesis
    by (simp add: EEPROM_PAGE_SIZE_def word_less_nat_alt b min_def)
qed

lemma word_eq_of_nat: "unat (w::'a::len word) = n \<Longrightarrow> w = of_nat n"
  using unsigned_less [of w, where 'a = nat] by (auto simp: word_unat_eq_iff unat_of_nat)

section \<open>The transfer loops return\<close>

lemma spec_chunks_0 [simp]: "spec_chunks buf pos 0 = []"
  by (subst spec_chunks.simps) simp

lemma spec_chunks_step:
  "0 < len \<Longrightarrow> spec_chunks buf pos len =
     (buf, pos div 64, pos mod 64, min len (64 - pos mod 64))
       # spec_chunks (buf + min len (64 - pos mod 64)) (pos + min len (64 - pos mod 64))
           (len - min len (64 - pos mod 64))"
  by (subst spec_chunks.simps) (simp add: Let_def)

lemma eeprom_read_loop_returns:
  assumes "settled m" and "unat offset + unat to_read \<le> 4032"
  shows "\<exists>m'. eeprom_read_loop buffer to_read offset m = Some (offset + ucast to_read, m')
           \<and> settled m'
           \<and> calls m' = calls m
                @ map (same_buffer buffer) (spec_read_calls b (unat offset) (unat to_read))"
  using assms
proof (induction "unat to_read" arbitrary: to_read offset m b rule: less_induct)
  case less
  show ?case
  proof (cases "to_read = 0")
    case True
    with less.prems(1) show ?thesis
      by (subst eeprom_read_loop.simps) (simp add: spec_read_calls_def)
  next
    case False
    then have pos: "0 < to_read"
      by (simp add: word_neq_0_conv)
    then have npos: "0 < unat to_read"
      by (simp add: word_less_nat_alt)
    define po where "po = (ucast (offset AND (of_nat EEPROM_PAGE_SIZE - 1)) :: size_t)"
    define page where "page = (ucast (signed_drop_bit 6 offset) :: u16)"
    define rb where "rb = (if to_read > of_nat EEPROM_PAGE_SIZE - po
                           then of_nat EEPROM_PAGE_SIZE - po else to_read)"
    define c where "c = min (unat to_read) (64 - unat offset mod 64)"
    have upo: "unat po = unat offset mod 64"
      by (simp add: po_def unat_page_offset)
    have upage: "unat page = unat offset div 64"
      using less.prems(2) by (simp add: page_def unat_page)
    have urb: "unat rb = c"
      using unat_chunk [of po to_read] pos upo by (simp add: rb_def c_def)
    have cpos: "0 < c" "c \<le> unat to_read"
      using npos by (simp_all add: c_def)
    have rest: "unat (to_read - rb) = unat to_read - c"
      using cpos urb by (subst unat_sub) (simp_all add: word_le_nat_alt)
    have adv: "unat (offset + ucast rb) = unat offset + c"
      using less.prems(2) cpos urb
      by (subst unat_add_lem [THEN iffD1]) (simp_all add: unat_ucast_32_64)
    have total: "offset + ucast rb + ucast (to_read - rb) = offset + ucast to_read"
      using cpos urb rest less.prems(2)
      by (simp add: word_unat_eq_iff unat_word_ariths unat_ucast_32_64)
    obtain m1 where m1: "EEPROM_Read po (ucast page) buffer rb m = Some (rb, m1)" "settled m1"
      "calls m1 = calls m @ [Call_Read po (ucast page) buffer rb]"
      using EEPROM_Read_returns [OF less.prems(1), of po "ucast page" buffer rb] by blast
    have "\<exists>m'. eeprom_read_loop buffer (to_read - rb) (offset + ucast rb) m1
                 = Some (offset + ucast rb + ucast (to_read - rb), m')
           \<and> settled m'
           \<and> calls m' = calls m1
                @ map (same_buffer buffer)
                    (spec_read_calls (b + c) (unat (offset + ucast rb)) (unat (to_read - rb)))"
      using cpos npos less.prems(2) m1(2)
      by (intro less.hyps) (simp_all add: rest adv)
    then obtain m' where m': "eeprom_read_loop buffer (to_read - rb) (offset + ucast rb) m1
                 = Some (offset + ucast to_read, m')" "settled m'"
           "calls m' = calls m1
                @ map (same_buffer buffer)
                    (spec_read_calls (b + c) (unat offset + c) (unat to_read - c))"
      by (auto simp: total rest adv)
    have call: "Call_Read po (ucast page) buffer rb
                = same_buffer buffer (Call_Read (of_nat (unat offset mod 64))
                    (of_nat (unat offset div 64)) b (of_nat c))"
      using upo upage urb
      by (simp add: word_eq_of_nat unat_ucast_16_32)
    have step: "eeprom_read_loop buffer to_read offset m =
                  (case EEPROM_Read po (ucast page) buffer rb m of
                     None \<Rightarrow> None
                   | Some (n, m1) \<Rightarrow>
                       eeprom_read_loop buffer (to_read - rb) (offset + ucast rb) m1)"
      unfolding po_def page_def rb_def using pos
      by (subst eeprom_read_loop.simps) (simp add: Let_def)
    have "eeprom_read_loop buffer to_read offset m = Some (offset + ucast to_read, m')"
      by (simp add: step m1(1) m'(1))
    moreover have "calls m' = calls m
                @ map (same_buffer buffer) (spec_read_calls b (unat offset) (unat to_read))"
      using npos
      by (simp add: m'(3) m1(3) call spec_read_calls_def spec_chunks_step [of "unat to_read"]
          c_def)
    ultimately show ?thesis
      using m'(2) by blast
  qed
qed

lemma eeprom_write_loop_returns:
  assumes "settled m" and "unat offset + unat to_write \<le> 4032"
  shows "\<exists>m'. eeprom_write_loop buffer to_write offset m = Some (offset + ucast to_write, m')
           \<and> settled m' \<and> user m' = user m
           \<and> calls m' = calls m
                @ spec_write_calls (user m) buffer (unat offset) (unat to_write)"
  using assms
proof (induction "unat to_write" arbitrary: to_write offset m buffer rule: less_induct)
  case less
  show ?case
  proof (cases "to_write = 0")
    case True
    with less.prems(1) show ?thesis
      by (subst eeprom_write_loop.simps) (simp add: spec_write_calls_def)
  next
    case False
    then have pos: "0 < to_write"
      by (simp add: word_neq_0_conv)
    then have npos: "0 < unat to_write"
      by (simp add: word_less_nat_alt)
    define po where "po = (ucast (offset AND (of_nat EEPROM_PAGE_SIZE - 1)) :: size_t)"
    define page where "page = (ucast (signed_drop_bit 6 offset) :: u16)"
    define wb where "wb = (if to_write > of_nat EEPROM_PAGE_SIZE - po
                           then of_nat EEPROM_PAGE_SIZE - po else to_write)"
    define c where "c = min (unat to_write) (64 - unat offset mod 64)"
    have upo: "unat po = unat offset mod 64"
      by (simp add: po_def unat_page_offset)
    have upo16: "unat (ucast po :: u16) = unat offset mod 64"
      using upo by (simp add: unat_ucast_32_16)
    have upage: "unat page = unat offset div 64"
      using less.prems(2) by (simp add: page_def unat_page)
    have uwb: "unat wb = c"
      using unat_chunk [of po to_write] pos upo by (simp add: wb_def c_def)
    have cpos: "0 < c" "c \<le> unat to_write"
      using npos by (simp_all add: c_def)
    have rest: "unat (to_write - wb) = unat to_write - c"
      using cpos uwb by (subst unat_sub) (simp_all add: word_le_nat_alt)
    have adv: "unat (offset + ucast wb) = unat offset + c"
      using less.prems(2) cpos uwb
      by (subst unat_add_lem [THEN iffD1]) (simp_all add: unat_ucast_32_64)
    have total: "offset + ucast wb + ucast (to_write - wb) = offset + ucast to_write"
      using cpos uwb rest less.prems(2)
      by (simp add: word_unat_eq_iff unat_word_ariths unat_ucast_32_64)
    obtain m1 where m1: "EEPROM_WritePageRegister (ucast po) buffer wb m = Some (wb, m1)"
      "settled m1" "user m1 = user m"
      "calls m1 = calls m @ [Call_WritePageRegister (ucast po)
                               (map (\<lambda>i. user m (buffer + i)) [0..<unat wb])]"
      using EEPROM_WritePageRegister_returns [OF less.prems(1), of "ucast po" buffer wb]
      by blast
    obtain m2 where m2: "EEPROM_EraseProgramPage page m1 = Some m2" "settled m2"
      "user m2 = user m1" "calls m2 = calls m1 @ [Call_EraseProgramPage page]"
      using EEPROM_EraseProgramPage_returns [OF m1(2), of page] by blast
    have "\<exists>m'. eeprom_write_loop (buffer + unat wb) (to_write - wb) (offset + ucast wb) m2
                 = Some (offset + ucast wb + ucast (to_write - wb), m')
           \<and> settled m' \<and> user m' = user m2
           \<and> calls m' = calls m2
                @ spec_write_calls (user m2) (buffer + unat wb) (unat (offset + ucast wb))
                    (unat (to_write - wb))"
      using cpos npos less.prems(2) m2(2)
      by (intro less.hyps) (simp_all add: rest adv)
    then obtain m' where m': "eeprom_write_loop (buffer + unat wb) (to_write - wb)
                 (offset + ucast wb) m2 = Some (offset + ucast to_write, m')"
           "settled m'" "user m' = user m"
           "calls m' = calls m2
                @ spec_write_calls (user m) (buffer + c) (unat offset + c) (unat to_write - c)"
      by (auto simp: total rest adv uwb m2(3) m1(3))
    have step: "eeprom_write_loop buffer to_write offset m =
                  (case EEPROM_WritePageRegister (ucast po) buffer wb m of
                     None \<Rightarrow> None
                   | Some (n, m1) \<Rightarrow>
                       (case EEPROM_EraseProgramPage page m1 of
                          None \<Rightarrow> None
                        | Some m2 \<Rightarrow>
                            eeprom_write_loop (buffer + unat wb) (to_write - wb)
                              (offset + ucast wb) m2))"
      unfolding po_def page_def wb_def using pos
      by (subst eeprom_write_loop.simps) (simp add: Let_def)
    have "eeprom_write_loop buffer to_write offset m = Some (offset + ucast to_write, m')"
      by (simp add: step m1(1) m2(1) m'(1))
    moreover have "calls m' = calls m
                @ spec_write_calls (user m) buffer (unat offset) (unat to_write)"
      using npos upo16 upage
      by (simp add: m'(4) m2(4) m1(4) uwb spec_write_calls_def
          spec_chunks_step [of "unat to_write"] c_def word_eq_of_nat)
    ultimately show ?thesis
      using m'(2,3) by blast
  qed
qed

lemma unat_remaining:
  fixes offset :: loff_t
  assumes "unat offset \<le> 4032"
  shows "unat (ucast (of_nat (EEPROM_PAGE_SIZE * EEPROM_PAGE_NUM) - offset) :: size_t)
         = 4032 - unat offset"
  using assms
  by (simp add: EEPROM_PAGE_SIZE_def EEPROM_PAGE_NUM_def unsigned_ucast_eq take_bit_nat_def
      unat_sub word_le_nat_alt)

lemma unat_clamped:
  fixes offset :: loff_t and len :: size_t
  assumes "unat offset \<le> 4032"
  defines "remaining \<equiv> (ucast (of_nat (EEPROM_PAGE_SIZE * EEPROM_PAGE_NUM) - offset) :: size_t)"
  shows "unat (if len > remaining then remaining else len) = min (unat len) (4032 - unat offset)"
  using unat_remaining [OF assms(1)]
  by (simp add: remaining_def word_less_nat_alt min_def)

lemma loff_t_nonneg:
  fixes offset :: loff_t
  assumes "0 \<le> sint offset"
  shows "int (unat offset) = sint offset"
proof -
  have "sint offset < 2 ^ 64"
    using sint_lt [of offset] by simp
  with assms have "take_bit 64 (sint offset) = sint offset"
    by (simp add: take_bit_int_eq_self)
  then have "uint offset = sint offset"
    using uint_sint [of offset] by simp
  then show ?thesis
    by simp
qed


section \<open>The chunks of the specification\<close>

lemma spec_chunks_bounds:
  assumes "pos + len \<le> 4032" and "(buf, page, page_offset, chunk) \<in> set (spec_chunks b pos len)"
  shows "page < 63 \<and> page_offset < 64 \<and> page_offset + chunk \<le> 64 \<and> 0 < chunk"
  using assms
proof (induction b pos len rule: spec_chunks.induct)
  case (1 b pos len)
  show ?case
  proof (cases "len = 0")
    case True
    with 1 show ?thesis by simp
  next
    case False
    define c where "c = min len (64 - pos mod 64)"
    have c: "0 < c" "c \<le> len" "pos mod 64 + c \<le> 64"
      using False by (simp_all add: c_def)
    from "1.prems"(2) False
    consider "(buf, page, page_offset, chunk) = (b, pos div 64, pos mod 64, c)"
      | "(buf, page, page_offset, chunk) \<in> set (spec_chunks (b + c) (pos + c) (len - c))"
      by (auto simp: spec_chunks_step c_def)
    then show ?thesis
    proof cases
      case 1
      have "pos < 4032" using "1.prems"(1) False by simp
      then have "pos div 64 < 63" by simp
      with 1 c show ?thesis by simp
    next
      case 2
      have "pos + c + (len - c) \<le> 4032"
        using "1.prems"(1) c by simp
      with 2 False show ?thesis
        by (intro "1.IH" [of "pos div 64" "pos mod 64" c]) (simp_all add: c_def)
    qed
  qed
qed

lemma spec_chunks_sum:
  "sum_list (map (\<lambda>(buf, page, page_offset, chunk). chunk) (spec_chunks b pos len)) = len"
proof (induction b pos len rule: spec_chunks.induct)
  case (1 b pos len)
  show ?case
  proof (cases "len = 0")
    case True
    then show ?thesis by simp
  next
    case False
    then show ?thesis
      using "1.IH" [of "pos div 64" "pos mod 64" "min len (64 - pos mod 64)"]
      by (simp add: spec_chunks_step)
  qed
qed

lemma spec_chunks_chunk_le:
  "(buf, page, page_offset, chunk) \<in> set (spec_chunks b pos len) \<Longrightarrow> chunk \<le> 64"
proof (induction b pos len rule: spec_chunks.induct)
  case (1 b pos len)
  show ?case
  proof (cases "len = 0")
    case True
    with 1 show ?thesis by simp
  next
    case False
    with "1.prems" "1.IH" [of "pos div 64" "pos mod 64" "min len (64 - pos mod 64)"]
    show ?thesis
      by (auto simp: spec_chunks_step)
  qed
qed

lemma spec_chunks_pages:
  "0 < len \<Longrightarrow>
   map (\<lambda>(buf, page, page_offset, chunk). page) (spec_chunks b pos len)
     = [pos div 64 ..< Suc ((pos + len - 1) div 64)]"
proof (induction b pos len rule: spec_chunks.induct)
  case (1 b pos len)
  define c where "c = min len (64 - pos mod 64)"
  have step: "spec_chunks b pos len
              = (b, pos div 64, pos mod 64, c) # spec_chunks (b + c) (pos + c) (len - c)"
    using "1.prems" by (simp add: spec_chunks_step c_def)
  show ?case
  proof (cases "len \<le> 64 - pos mod 64")
    case True
    then have "c = len" by (simp add: c_def)
    moreover have "(pos + len - 1) div 64 = pos div 64"
    proof -
      have "pos + len - 1 = pos div 64 * 64 + (pos mod 64 + len - 1)"
        using "1.prems" by simp
      also have "\<dots> div 64 = pos div 64"
        using True "1.prems" by (subst div_mult_self3) simp_all
      finally show ?thesis .
    qed
    ultimately show ?thesis
      by (simp only: step list.map prod.case diff_self_eq_0 spec_chunks_0) simp
  next
    case False
    then have c: "c = 64 - pos mod 64" "c < len" "0 < c"
      by (simp_all add: c_def)
    have nxt: "(pos + c) div 64 = Suc (pos div 64)"
    proof -
      have "pos div 64 * 64 + pos mod 64 = pos" "pos mod 64 < 64"
        by simp_all
      then have "pos + c = 64 + pos div 64 * 64"
        unfolding c(1) by linarith
      then have "(pos + c) div 64 = (64 + pos div 64 * 64) div 64"
        by (rule arg_cong)
      then show ?thesis by simp
    qed
    have "map (\<lambda>(buf, page, page_offset, chunk). page) (spec_chunks (b + c) (pos + c) (len - c))
          = [(pos + c) div 64 ..< Suc ((pos + c + (len - c) - 1) div 64)]"
      using c "1.prems"
      by (intro "1.IH" [of "pos div 64" "pos mod 64" c]) (simp_all add: c_def)
    also have "\<dots> = [Suc (pos div 64) ..< Suc ((pos + len - 1) div 64)]"
    proof -
      have "pos + c + (len - c) - 1 = pos + len - 1"
        using c(2) by simp
      then show ?thesis
        by (simp only: nxt)
    qed
    finally have rest: "map (\<lambda>(buf, page, page_offset, chunk). page)
                          (spec_chunks (b + c) (pos + c) (len - c))
                        = [Suc (pos div 64) ..< Suc ((pos + len - 1) div 64)]" .
    have "pos div 64 \<le> (pos + len - 1) div 64"
      using "1.prems" by (intro div_le_mono) simp
    then have "[pos div 64 ..< Suc ((pos + len - 1) div 64)]
               = pos div 64 # [Suc (pos div 64) ..< Suc ((pos + len - 1) div 64)]"
      by (intro upt_conv_Cons) simp
    then show ?thesis
      by (simp only: step rest list.map prod.case)
  qed
qed


section \<open>The calls of the specification\<close>

lemma transferred_read_calls:
  "transferred (map (same_buffer dst) (spec_read_calls b pos len)) = len"
proof -
  have "map byte_count (map (same_buffer dst) (spec_read_calls b pos len))
        = map (\<lambda>(buf, page, page_offset, chunk). chunk) (spec_chunks b pos len)"
    unfolding spec_read_calls_def map_map
  proof (rule map_cong [OF refl])
    fix x assume x: "x \<in> set (spec_chunks b pos len)"
    obtain buf page po c where [simp]: "x = (buf, page, po, c)"
      by (cases x)
    have "c \<le> 64"
      using x spec_chunks_chunk_le [of buf page po c b pos len] by simp
    then show "(byte_count \<circ> (same_buffer dst \<circ>
                 (\<lambda>(buf, page, page_offset, chunk).
                    Call_Read (of_nat page_offset) (of_nat page) buf (of_nat chunk)))) x
               = (case x of (buf, page, page_offset, chunk) \<Rightarrow> chunk)"
      by (simp add: unat_of_nat)
  qed
  then show ?thesis
    by (simp add: transferred_def spec_chunks_sum)
qed

lemma transferred_write_calls:
  "transferred (spec_write_calls mem b pos len) = len"
proof -
  have "sum_list (map byte_count (concat (map (\<lambda>(buf, page, page_offset, chunk).
              [Call_WritePageRegister (of_nat page_offset) (map (\<lambda>i. mem (buf + i)) [0..<chunk]),
               Call_EraseProgramPage (of_nat page)]) xs)))
        = sum_list (map (\<lambda>(buf, page, page_offset, chunk). chunk) xs)"
    for xs :: "(nat \<times> nat \<times> nat \<times> nat) list"
    by (induction xs) auto
  then show ?thesis
    by (simp only: transferred_def spec_write_calls_def spec_chunks_sum)
qed

lemma precondition_read_calls:
  assumes "pos + len \<le> 4032"
  shows "list_all pe_precondition (map (same_buffer dst) (spec_read_calls b pos len))"
  unfolding list_all_iff spec_read_calls_def
proof (clarsimp)
  fix buf page po c
  assume "(buf, page, po, c) \<in> set (spec_chunks b pos len)"
  then have "page < 63 \<and> po < 64 \<and> po + c \<le> 64 \<and> 0 < c"
    using spec_chunks_bounds [OF assms] by blast
  then show "unat (word_of_nat page :: u32) < EEPROM_PAGE_NUM \<and>
             unat (word_of_nat po :: u32) < EEPROM_PAGE_SIZE \<and>
             unat (word_of_nat po :: u32) + unat (word_of_nat c :: u32) \<le> EEPROM_PAGE_SIZE"
    by (simp add: unat_of_nat EEPROM_PAGE_NUM_def EEPROM_PAGE_SIZE_def)
qed

lemma precondition_write_calls:
  assumes "pos + len \<le> 4032"
  shows "list_all pe_precondition (spec_write_calls mem b pos len)"
  unfolding list_all_iff spec_write_calls_def
proof (clarsimp)
  fix buf page po c x
  assume "(buf, page, po, c) \<in> set (spec_chunks b pos len)"
    and x: "x = Call_WritePageRegister (word_of_nat po) (map (\<lambda>i. mem (buf + i)) [0..<c])
            \<or> x = Call_EraseProgramPage (word_of_nat page)"
  then have "page < 63 \<and> po < 64 \<and> po + c \<le> 64 \<and> 0 < c"
    using spec_chunks_bounds [OF assms] by blast
  with x show "pe_precondition x"
    by (auto simp: unat_of_nat EEPROM_PAGE_NUM_def EEPROM_PAGE_SIZE_def)
qed

lemma programmed_pages_append [simp]:
  "programmed_pages (xs @ ys) = programmed_pages xs @ programmed_pages ys"
  by (induction xs rule: programmed_pages.induct) simp_all

lemma programmed_pages_write_calls:
  assumes "0 < len"
  shows "programmed_pages (spec_write_calls mem b pos len)
         = map of_nat [pos div 64 ..< Suc ((pos + len - 1) div 64)]"
proof -
  have "programmed_pages (concat (map (\<lambda>(buf, page, page_offset, chunk).
              [Call_WritePageRegister (of_nat page_offset) (map (\<lambda>i. mem (buf + i)) [0..<chunk]),
               Call_EraseProgramPage (of_nat page)]) xs))
        = map of_nat (map (\<lambda>(buf, page, page_offset, chunk). page) xs)"
    for xs :: "(nat \<times> nat \<times> nat \<times> nat) list"
    by (induction xs) auto
  then show ?thesis
    by (simp only: spec_write_calls_def spec_chunks_pages [OF assms])
qed

section \<open>Read and write return\<close>

lemma ucast_to_loff_t: "(ucast (w::size_t) :: loff_t) = of_nat (unat w)"
  by simp

lemma eeprom_read_returns:
  assumes "settled m" and "access_ok buffer len" and "unat offset \<le> 4032"
  defines "k \<equiv> min (unat len) (4032 - unat offset)"
  shows "\<exists>m'. eeprom_read access_ok buffer len offset m = Some (of_nat k, offset + of_nat k, m')
           \<and> settled m'
           \<and> calls m' = calls m
                @ map (same_buffer buffer) (spec_read_calls buffer (unat offset) k)"
proof -
  define remaining where
    "remaining = (ucast (of_nat (EEPROM_PAGE_SIZE * EEPROM_PAGE_NUM) - offset) :: size_t)"
  define n where "n = (if len > remaining then remaining else len)"
  have un: "unat n = k"
    unfolding n_def remaining_def k_def by (rule unat_clamped [OF assms(3)])
  then have n: "n = of_nat k"
    by (rule word_eq_of_nat)
  have unfold: "eeprom_read access_ok buffer len offset m =
                  (if n = 0 then Some (0, offset, m)
                   else case eeprom_read_loop buffer n offset m of
                          None \<Rightarrow> None
                        | Some (offset', m') \<Rightarrow> Some (ucast n, offset', m'))"
    unfolding eeprom_read_def n_def remaining_def Let_def using assms(2) by simp
  show ?thesis
  proof (cases "n = 0")
    case True
    then have "k = 0" using un by simp
    with True assms(1) show ?thesis
      by (simp add: unfold spec_read_calls_def)
  next
    case False
    have "unat offset + unat n \<le> 4032"
      using assms(3) by (simp add: un k_def)
    then obtain m' where m': "eeprom_read_loop buffer n offset m = Some (offset + ucast n, m')"
      "settled m'"
      "calls m' = calls m @ map (same_buffer buffer) (spec_read_calls buffer (unat offset) (unat n))"
      using eeprom_read_loop_returns [OF assms(1), of offset n buffer buffer] by blast
    have "(of_nat (unat n) :: loff_t) = ucast n"
      by simp
    then have n64: "(ucast n :: loff_t) = of_nat k"
      by (simp only: un)
    have "eeprom_read access_ok buffer len offset m = Some (n, offset + of_nat k, m')"
      using False m'(1) by (simp add: unfold n64)
    then have "eeprom_read access_ok buffer len offset m = Some (of_nat k, offset + of_nat k, m')"
      by (simp only: n)
    with m'(2,3) show ?thesis
      by (simp add: un)
  qed
qed

lemma eeprom_write_returns:
  assumes "settled m" and "access_ok buffer len" and "unat offset \<le> 4032"
  defines "k \<equiv> min (unat len) (4032 - unat offset)"
  shows "\<exists>m'. eeprom_write access_ok buffer len offset m = Some (of_nat k, offset + of_nat k, m')
           \<and> settled m' \<and> user m' = user m
           \<and> calls m' = calls m @ spec_write_calls (user m) buffer (unat offset) k"
proof -
  define remaining where
    "remaining = (ucast (of_nat (EEPROM_PAGE_SIZE * EEPROM_PAGE_NUM) - offset) :: size_t)"
  define n where "n = (if len > remaining then remaining else len)"
  have un: "unat n = k"
    unfolding n_def remaining_def k_def by (rule unat_clamped [OF assms(3)])
  then have n: "n = of_nat k"
    by (rule word_eq_of_nat)
  have unfold: "eeprom_write access_ok buffer len offset m =
                  (if n = 0 then Some (0, offset, m)
                   else case eeprom_write_loop buffer n offset m of
                          None \<Rightarrow> None
                        | Some (offset', m') \<Rightarrow> Some (ucast n, offset', m'))"
    unfolding eeprom_write_def n_def remaining_def Let_def using assms(2) by simp
  show ?thesis
  proof (cases "n = 0")
    case True
    then have "k = 0" using un by simp
    with True assms(1) show ?thesis
      by (simp add: unfold spec_write_calls_def)
  next
    case False
    have "unat offset + unat n \<le> 4032"
      using assms(3) by (simp add: un k_def)
    then obtain m' where m': "eeprom_write_loop buffer n offset m = Some (offset + ucast n, m')"
      "settled m'" "user m' = user m"
      "calls m' = calls m @ spec_write_calls (user m) buffer (unat offset) (unat n)"
      using eeprom_write_loop_returns [OF assms(1), of offset n buffer] by blast
    have "(of_nat (unat n) :: loff_t) = ucast n"
      by simp
    then have n64: "(ucast n :: loff_t) = of_nat k"
      by (simp only: un)
    have "eeprom_write access_ok buffer len offset m = Some (n, offset + of_nat k, m')"
      using False m'(1) by (simp add: unfold n64)
    then have "eeprom_write access_ok buffer len offset m = Some (of_nat k, offset + of_nat k, m')"
      by (simp only: n)
    with m'(2,3,4) show ?thesis
      by (simp add: un)
  qed
qed

lemma eeprom_read_rejects:
  "\<not> access_ok buffer len \<Longrightarrow> eeprom_read access_ok buffer len offset m = Some (- EINVAL, offset, m)"
  by (simp add: eeprom_read_def)

lemma eeprom_write_rejects:
  "\<not> access_ok buffer len \<Longrightarrow> eeprom_write access_ok buffer len offset m = Some (- EINVAL, offset, m)"
  by (simp add: eeprom_write_def)

lemma loff_t_in_device:
  fixes pos :: loff_t
  assumes "0 \<le> sint pos" and "sint pos \<le> 4032"
  shows "unat pos = nat (sint pos)" and "unat pos \<le> 4032"
  using loff_t_nonneg [OF assms(1)] assms(2) by linarith+

lemma sint_count:
  assumes "k \<le> 4032"
  shows "sint (of_nat k :: c_int) = int k"
proof -
  have "sint (word_of_int (int k) :: c_int) = int k"
    using assms by (simp only: sint_sbintrunc') (simp add: signed_take_bit_int_eq_self)
  then show ?thesis by simp
qed

lemma sint_advance:
  fixes pos :: loff_t
  assumes "0 \<le> sint pos" and "sint pos + int k \<le> 4032"
  shows "sint (pos + of_nat k) = sint pos + int k"
proof -
  have "sint (of_nat k :: loff_t) = int k"
  proof -
    have "sint (word_of_int (int k) :: loff_t) = int k"
      using assms by (simp only: sint_sbintrunc') (simp add: signed_take_bit_int_eq_self)
    then show ?thesis by simp
  qed
  then show ?thesis
    using assms by (simp add: sint_word_ariths signed_take_bit_int_eq_self)
qed


section \<open>A read within one page\<close>

lemma byte_through_register: "(ucast (ucast (x::u8) :: u32) :: u8) = x"
  by (simp add: ucast_up_ucast_id is_up)

lemma unat_addr_12:
  fixes a :: u32
  assumes "unat a < 4096"
  shows "unat (a AND 4095) = unat a"
proof -
  have "a AND 4095 = take_bit 12 a"
    by (simp add: take_bit_eq_mask mask_eq_exp_minus_1)
  then show ?thesis
    using assms by (simp add: unsigned_take_bit_eq take_bit_nat_def)
qed

lemma EEPROM_Read_loop_delivers:
  assumes "settled m" and "\<not> bit (intstat m) 26"
    and "cmd m = EEPROM_CMD_8BITS_READ OR EEPROM_CMD_RDPREFETCH" and "i \<le> n"
    and "unat (addr m) + (unat n - unat i) \<le> 4096"
  shows "\<exists>m'. EEPROM_Read_loop pData n i m = Some (n, m') \<and> cells m' = cells m
           \<and> (\<forall>a. user m' a =
                  (if pData + unat i \<le> a \<and> a < pData + unat n
                   then cells m (unat (addr m) + (a - (pData + unat i)))
                   else user m a))"
  using assms
proof (induction "unat n - unat i" arbitrary: i m)
  case 0
  then have "i = n"
    by (simp add: word_le_nat_alt word_unat_eq_iff)
  then show ?case
    by (subst EEPROM_Read_loop.simps) auto
next
  case (Suc d)
  then have lt: "i < n"
    by (simp add: word_less_nat_alt)
  then have nxt: "unat (i + 1) = Suc (unat i)"
    by unat_arith
  have ulit: "unat i < unat n"
    using lt by (simp add: word_less_nat_alt)
  have ab: "unat (addr m) < 4096"
    using Suc.prems(5) ulit by simp
  then have anxt: "unat (addr m + 1) = Suc (unat (addr m))"
    by (subst unat_add_lem [THEN iffD1]) simp_all
  obtain v m1 where rd: "EEPROM_ReadData m = (v, m1)"
    by (cases "EEPROM_ReadData m")
  have v: "v = ucast (cells m (unat (addr m)))"
    using rd Suc.prems(3) unat_addr_12 [OF ab] by (auto simp: EEPROM_ReadData_def load_def)
  let ?m2 = "m1\<lparr>user := (user m1)(pData + unat i := ucast v)\<rparr>"
  have m1: "m1 = m\<lparr>addr := addr m + 1, pending := pending m OR EEPROM_INT_ENDOFRW,
                      busy := latency m, bus := bus m @ [Load RDATA v]\<rparr>"
    using rd Suc.prems(3) by (auto simp: EEPROM_ReadData_def load_def)
  have w: "\<exists>m3. EEPROM_WaitForIntStatus EEPROM_INT_ENDOFRW ?m2 = Some m3 \<and> settled m3
             \<and> \<not> bit (intstat m3) 26 \<and> cmd m3 = cmd m \<and> cells m3 = cells m
             \<and> addr m3 = addr m + 1
             \<and> user m3 = (user m)(pData + unat i := cells m (unat (addr m)))"
    using Suc.prems(1,2)
    by (subst wait_end_of_rw) (simp_all add: m1 v settled_def bit_simps byte_through_register)
  then obtain m3 where m3: "EEPROM_WaitForIntStatus EEPROM_INT_ENDOFRW ?m2 = Some m3"
    "settled m3" "\<not> bit (intstat m3) 26" "cmd m3 = cmd m" "cells m3 = cells m"
    "addr m3 = addr m + 1" "user m3 = (user m)(pData + unat i := cells m (unat (addr m)))"
    by blast
  have "\<exists>m'. EEPROM_Read_loop pData n (i + 1) m3 = Some (n, m') \<and> cells m' = cells m3
          \<and> (\<forall>a. user m' a =
                 (if pData + unat (i + 1) \<le> a \<and> a < pData + unat n
                  then cells m3 (unat (addr m3) + (a - (pData + unat (i + 1))))
                  else user m3 a))"
    using Suc.hyps(2) Suc.prems(3,5) lt nxt m3 anxt ulit
    by (intro Suc.hyps(1)) (simp_all add: word_le_nat_alt word_less_nat_alt)
  then obtain m' where m': "EEPROM_Read_loop pData n (i + 1) m3 = Some (n, m')"
    "cells m' = cells m"
    "\<And>a. user m' a =
            (if pData + Suc (unat i) \<le> a \<and> a < pData + unat n
             then cells m (Suc (unat (addr m)) + (a - (pData + Suc (unat i))))
             else ((user m)(pData + unat i := cells m (unat (addr m)))) a)"
    by (auto simp: m3 nxt anxt)
  have "EEPROM_Read_loop pData n i m = Some (n, m')"
    using lt rd m3(1) m'(1) by (subst EEPROM_Read_loop.simps) simp
  moreover have "user m' a =
                  (if pData + unat i \<le> a \<and> a < pData + unat n
                   then cells m (unat (addr m) + (a - (pData + unat i)))
                   else user m a)" for a
  proof -
    consider "a = pData + unat i" | "pData + Suc (unat i) \<le> a" | "a < pData + unat i"
      by linarith
    then show ?thesis
    proof cases
      case 1
      then show ?thesis using ulit by (simp add: m'(3))
    next
      case 2
      then have "Suc (unat (addr m)) + (a - (pData + Suc (unat i)))
                 = unat (addr m) + (a - (pData + unat i))"
        by simp
      with 2 show ?thesis by (simp add: m'(3))
    next
      case 3
      then show ?thesis by (simp add: m'(3))
    qed
  qed
  ultimately show ?case
    using m'(2) by blast
qed

lemma unat_page_address:
  fixes pageAddr pageOffset :: u32
  assumes "unat pageAddr < 64" and "unat pageOffset < 64"
  shows "unat (push_bit 6 pageAddr OR pageOffset) = 64 * unat pageAddr + unat pageOffset"
proof -
  have "take_bit 6 pageOffset = pageOffset"
    using assms(2) by (simp add: word_unat_eq_iff unsigned_take_bit_eq take_bit_nat_def)
  then have low: "bit pageOffset n \<Longrightarrow> n < 6" for n
    by (metis bit_take_bit_iff)
  have "\<not> bit (push_bit 6 pageAddr) n \<or> \<not> bit pageOffset n" for n
    using low [of n] by (auto simp: bit_push_bit_iff)
  then have "push_bit 6 pageAddr + pageOffset = push_bit 6 pageAddr OR pageOffset"
    by (rule disjunctive_add)
  moreover have m: "unat (pageAddr * 64) = unat pageAddr * 64"
    using assms(1) by (subst unat_mult_lem [THEN iffD1]) simp_all
  moreover have "unat (pageAddr * 64 + pageOffset) = unat (pageAddr * 64) + unat pageOffset"
    using assms by (subst unat_add_lem [THEN iffD1]) (simp_all add: m)
  ultimately show ?thesis
    by (simp add: push_bit_eq_mult m)
qed

lemma EEPROM_Read_delivers:
  assumes "settled m" and "unat pageAddr < 64" and "unat pageOffset + unat n \<le> 64"
    and "0 < unat n"
  shows "\<exists>m'. EEPROM_Read pageOffset pageAddr pData n m = Some (n, m') \<and> cells m' = cells m
           \<and> (\<forall>a. user m' a =
                  (if pData \<le> a \<and> a < pData + unat n
                   then cells m (64 * unat pageAddr + unat pageOffset + (a - pData))
                   else user m a))"
proof -
  let ?m0 = "m\<lparr>calls := calls m @ [Call_Read pageOffset pageAddr pData n]\<rparr>"
  let ?m3 = "EEPROM_SetCmd (EEPROM_CMD_8BITS_READ OR EEPROM_CMD_RDPREFETCH)
               (EEPROM_SetAddr pageAddr pageOffset
                 (EEPROM_ClearIntStatus EEPROM_INT_ENDOFRW ?m0))"
  have ne: "EEPROM_CMD_8BITS_READ OR EEPROM_CMD_RDPREFETCH \<noteq> EEPROM_CMD_ERASE_PRG_PAGE"
    by (simp add: EEPROM_CMD_8BITS_READ_def EEPROM_CMD_RDPREFETCH_def
        EEPROM_CMD_ERASE_PRG_PAGE_def)
  have po: "unat pageOffset < 64"
    using assms(3,4) by simp
  have s: "settled ?m3" "\<not> bit (intstat ?m3) 26"
    "cmd ?m3 = EEPROM_CMD_8BITS_READ OR EEPROM_CMD_RDPREFETCH"
    "cells ?m3 = cells m" "user ?m3 = user m"
    "addr ?m3 = push_bit 6 pageAddr OR pageOffset"
    using assms(1) ne
    by (simp_all add: settled_def EEPROM_SetCmd_def EEPROM_SetAddr_def
        EEPROM_ClearIntStatus_def store_def bit_simps)
  have a: "unat (addr ?m3) = 64 * unat pageAddr + unat pageOffset"
    unfolding s(6) using assms(2) po by (rule unat_page_address)
  have b: "unat (addr ?m3) + (unat n - unat (0 :: u32)) \<le> 4096"
    using assms(2,3) by (simp add: a)
  obtain m' where m': "EEPROM_Read_loop pData n 0 ?m3 = Some (n, m')" "cells m' = cells ?m3"
    "\<And>a. user m' a =
            (if pData + unat (0 :: u32) \<le> a \<and> a < pData + unat n
             then cells ?m3 (unat (addr ?m3) + (a - (pData + unat (0 :: u32))))
             else user ?m3 a)"
    using EEPROM_Read_loop_delivers [OF s(1,2,3) _ b, of pData] by auto
  have "user m' a =
          (if pData \<le> a \<and> a < pData + unat n
           then cells m (64 * unat pageAddr + unat pageOffset + (a - pData))
           else user m a)" for a
    unfolding m'(3) s(4) s(5) a by simp
  moreover have "EEPROM_Read pageOffset pageAddr pData n m = Some (n, m')"
    using m'(1) by (simp add: EEPROM_Read_def Let_def)
  ultimately show ?thesis
    using m'(2) s(4) by auto
qed

lemma eeprom_read_loop_within_page:
  assumes "settled m" and "0 < unat to_read" and "unat offset + unat to_read \<le> 4032"
    and "unat offset mod 64 + unat to_read \<le> 64"
  shows "\<exists>m'. eeprom_read_loop buffer to_read offset m = Some (offset + ucast to_read, m')
           \<and> cells m' = cells m
           \<and> (\<forall>a. user m' a =
                  (if buffer \<le> a \<and> a < buffer + unat to_read
                   then cells m (unat offset + (a - buffer))
                   else user m a))"
proof -
  have pos: "0 < to_read"
    using assms(2) by (simp add: word_less_nat_alt)
  define po where "po = (ucast (offset AND (of_nat EEPROM_PAGE_SIZE - 1)) :: size_t)"
  define page where "page = (ucast (signed_drop_bit 6 offset) :: u16)"
  define rb where "rb = (if to_read > of_nat EEPROM_PAGE_SIZE - po
                         then of_nat EEPROM_PAGE_SIZE - po else to_read)"
  have upo: "unat po = unat offset mod 64"
    by (simp add: po_def unat_page_offset)
  have upage: "unat (ucast page :: u32) = unat offset div 64"
    using assms(3) by (simp add: page_def unat_page unat_ucast_16_32)
  have "unat rb = min (unat to_read) (64 - unat offset mod 64)"
    using unat_chunk [of po to_read] pos upo by (simp add: rb_def)
  then have "unat rb = unat to_read"
    using assms(4) by simp
  then have rb: "rb = to_read"
    by (simp add: word_unat_eq_iff)
  have step: "eeprom_read_loop buffer to_read offset m =
                (case EEPROM_Read po (ucast page) buffer rb m of
                   None \<Rightarrow> None
                 | Some (n, m1) \<Rightarrow>
                     eeprom_read_loop buffer (to_read - rb) (offset + ucast rb) m1)"
    unfolding po_def page_def rb_def using pos
    by (subst eeprom_read_loop.simps) (simp add: Let_def)
  have pg: "unat (ucast page :: u32) < 64"
    using assms(3) by (simp add: upage)
  obtain m' where m': "EEPROM_Read po (ucast page) buffer to_read m = Some (to_read, m')"
    "cells m' = cells m"
    "\<And>a. user m' a =
            (if buffer \<le> a \<and> a < buffer + unat to_read
             then cells m (64 * unat (ucast page :: u32) + unat po + (a - buffer))
             else user m a)"
    using EEPROM_Read_delivers [OF assms(1) pg, of po to_read buffer] assms(2,4) upo
    by auto
  have "64 * unat (ucast page :: u32) + unat po = unat offset"
    by (simp add: upo upage)
  then have "user m' a =
          (if buffer \<le> a \<and> a < buffer + unat to_read
           then cells m (unat offset + (a - buffer))
           else user m a)" for a
    unfolding m'(3) by simp
  moreover have "eeprom_read_loop buffer to_read offset m = Some (offset + ucast to_read, m')"
    unfolding step rb using m'(1)
    by (simp add: eeprom_read_loop.simps [of buffer 0])
  ultimately show ?thesis
    using m'(2) by auto
qed

text \<open>
  What does hold of the data path: a read that stays within one page, from a position
  inside the device, delivers the device bytes at pos, pos + 1, ... in that order, leaves
  the rest of user memory alone and does not change the device.
\<close>

lemma read_within_page_delivers_device_bytes:
  assumes "settled m" and "access_ok buffer len" and "0 < unat len"
    and "0 \<le> sint pos" and "sint pos + int (unat len) \<le> int capacity"
    and "nat (sint pos) mod 64 + unat len \<le> 64"
  shows "\<exists>m'. eeprom_read access_ok buffer len pos m = Some (len, pos + ucast len, m')
           \<and> cells m' = cells m
           \<and> (\<forall>i < unat len. user m' (buffer + i) = cells m (nat (sint pos) + i))
           \<and> (\<forall>a. a < buffer \<or> buffer + unat len \<le> a \<longrightarrow> user m' a = user m a)"
proof -
  have cap: "capacity = 4032"
    by (simp add: capacity_def EEPROM_PAGE_SIZE_def EEPROM_PAGE_NUM_def)
  have sp: "sint pos \<le> 4032" "int (unat len) \<le> 4032 - sint pos"
    using assms(5) unfolding cap by linarith+
  have u: "unat pos = nat (sint pos)" "unat pos \<le> 4032"
    using loff_t_in_device [of pos] assms(4) sp(1) by simp_all
  have fit: "unat pos + unat len \<le> 4032"
    using assms(4) sp(2) unfolding u(1) by linarith
  define remaining where
    "remaining = (ucast (of_nat (EEPROM_PAGE_SIZE * EEPROM_PAGE_NUM) - pos) :: size_t)"
  define n where "n = (if len > remaining then remaining else len)"
  have "unat n = min (unat len) (4032 - unat pos)"
    unfolding n_def remaining_def by (rule unat_clamped [OF u(2)])
  then have "unat n = unat len"
    using fit by simp
  then have n: "n = len"
    by (simp add: word_unat_eq_iff)
  have nz: "len \<noteq> 0"
    using assms(3) by auto
  have unfold: "eeprom_read access_ok buffer len pos m =
                  (if n = 0 then Some (0, pos, m)
                   else case eeprom_read_loop buffer n pos m of
                          None \<Rightarrow> None
                        | Some (offset', m') \<Rightarrow> Some (ucast n, offset', m'))"
    unfolding eeprom_read_def n_def remaining_def Let_def using assms(2) by simp
  obtain m' where m': "eeprom_read_loop buffer len pos m = Some (pos + ucast len, m')"
    "cells m' = cells m"
    "\<And>a. user m' a =
            (if buffer \<le> a \<and> a < buffer + unat len
             then cells m (unat pos + (a - buffer))
             else user m a)"
    using eeprom_read_loop_within_page [OF assms(1,3) fit, of buffer] assms(6) u(1)
    by auto
  have "eeprom_read access_ok buffer len pos m = Some (len, pos + ucast len, m')"
    unfolding unfold n using nz m'(1) by simp
  then show ?thesis
    using m'(2) by (auto simp: m'(3) u(1))
qed

text \<open>Four bytes read at position 60.\<close>

lemma read_within_page_delivers_device_bytes_example:
  "settled (bench 1 []) \<and> every_buffer 0 4 \<and> 0 < unat (4 :: size_t)
   \<and> 0 \<le> sint (60 :: loff_t) \<and> sint (60 :: loff_t) + int (unat (4 :: size_t)) \<le> int capacity
   \<and> nat (sint (60 :: loff_t)) mod 64 + unat (4 :: size_t) \<le> 64
   \<and> (\<exists>m'. eeprom_read every_buffer 0 4 60 (bench 1 []) = Some (4, 64, m')
         \<and> user_window m' 0 4 = [60, 61, 62, 63])"
proof -
  have a: "settled (bench 1 [])"
    by (simp add: settled_def bench_def)
  have "\<exists>m'. eeprom_read every_buffer 0 4 60 (bench 1 []) = Some (4, 60 + ucast (4 :: size_t), m')
           \<and> cells m' = cells (bench 1 [])
           \<and> (\<forall>i < unat (4 :: size_t). user m' (0 + i)
                  = cells (bench 1 []) (nat (sint (60 :: loff_t)) + i))
           \<and> (\<forall>a. a < 0 \<or> 0 + unat (4 :: size_t) \<le> a \<longrightarrow> user m' a = user (bench 1 []) a)"
    using a
    by (intro read_within_page_delivers_device_bytes)
       (simp_all add: every_buffer_def capacity_def EEPROM_PAGE_SIZE_def EEPROM_PAGE_NUM_def)
  then obtain m' where m': "eeprom_read every_buffer 0 4 60 (bench 1 []) = Some (4, 64, m')"
    "\<forall>i < 4. user m' i = cell_pattern (60 + i)"
    by (auto simp: bench_def)
  have "user_window m' 0 4 = [60, 61, 62, 63]"
    using m'(2) by (simp add: user_window_def cell_pattern_def upt_rec)
  with a m'(1) show ?thesis
    by (auto simp: every_buffer_def capacity_def EEPROM_PAGE_SIZE_def EEPROM_PAGE_NUM_def)
qed

section \<open>The register traffic of a page program\<close>

text \<open>
  On every machine at rest \<open>EEPROM_EraseProgramPage\<close> stores, in this order: the command code
  to the status-clear register, the page address to the address register, the command to
  the command register; then it polls the status until \<open>END_OF_PROG\<close> shows and clears it.
\<close>

lemma EEPROM_EraseProgramPage_traffic:
  assumes "settled m"
  shows "map_option bus (EEPROM_EraseProgramPage pageAddr m)
         = Some (bus m
             @ [Store INTSTATCLR EEPROM_CMD_ERASE_PRG_PAGE,
                Store ADDR (push_bit 6 (ucast pageAddr)),
                Store CMD EEPROM_CMD_ERASE_PRG_PAGE]
             @ replicate (latency m) (Load INTSTAT (intstat m AND NOT EEPROM_CMD_ERASE_PRG_PAGE))
             @ [Load INTSTAT ((intstat m AND NOT EEPROM_CMD_ERASE_PRG_PAGE)
                               OR EEPROM_INT_ENDOFPROG),
                Store INTSTATCLR EEPROM_INT_ENDOFPROG])"
  using assms
  unfolding EEPROM_EraseProgramPage_def Let_def
  by (subst wait_end_of_prog)
     (simp_all add: settled_def EEPROM_SetCmd_def EEPROM_SetAddr_def
        EEPROM_ClearIntStatus_def store_def bit_simps)

section \<open>The traffic on the register block\<close>

text \<open>
  What the page operations and the transfer loops put on the bus, on a machine at rest:
  the byte loops load the read-data port or store the write-data port once per byte, and
  the status polls in between touch neither the data ports nor the address and command
  registers.
\<close>

lemma rdata_loads_append [simp]: "rdata_loads (xs @ ys) = rdata_loads xs @ rdata_loads ys"
  by (induction xs rule: rdata_loads.induct) simp_all

lemma wdata_stores_append [simp]: "wdata_stores (xs @ ys) = wdata_stores xs @ wdata_stores ys"
  by (induction xs rule: wdata_stores.induct) simp_all

lemma control_stores_append [simp]:
  "control_stores (xs @ ys) = control_stores xs @ control_stores ys"
  by (induction xs rule: control_stores.induct) simp_all

lemma polls_invisible [simp]:
  "rdata_loads (replicate n (Load INTSTAT s)) = []"
  "wdata_stores (replicate n (Load INTSTAT s)) = []"
  "control_stores (replicate n (Load INTSTAT s)) = []"
  by (induction n) simp_all

lemma EEPROM_Read_loop_traffic:
  assumes "settled m" and "\<not> bit (intstat m) 26"
    and "cmd m = EEPROM_CMD_8BITS_READ OR EEPROM_CMD_RDPREFETCH" and "i \<le> n"
    and "unat (addr m) + (unat n - unat i) \<le> 4096"
  shows "\<exists>m' es. EEPROM_Read_loop pData n i m = Some (n, m') \<and> bus m' = bus m @ es
           \<and> rdata_loads es = map (\<lambda>j. ucast (cells m (unat (addr m) + j))) [0..<unat n - unat i]
           \<and> wdata_stores es = [] \<and> control_stores es = []"
  using assms
proof (induction "unat n - unat i" arbitrary: i m)
  case 0
  then have "i = n"
    by (simp add: word_le_nat_alt word_unat_eq_iff)
  then show ?case
    by (subst EEPROM_Read_loop.simps) auto
next
  case (Suc d)
  then have lt: "i < n"
    by (simp add: word_less_nat_alt)
  then have nxt: "unat (i + 1) = Suc (unat i)"
    by unat_arith
  have ulit: "unat i < unat n"
    using lt by (simp add: word_less_nat_alt)
  have d: "unat n - unat i = Suc d" "unat n - Suc (unat i) = d"
    using Suc.hyps(2) by simp_all
  have ab: "unat (addr m) < 4096"
    using Suc.prems(5) ulit by simp
  then have anxt: "unat (addr m + 1) = Suc (unat (addr m))"
    by (subst unat_add_lem [THEN iffD1]) simp_all
  obtain v m1 where rd: "EEPROM_ReadData m = (v, m1)"
    by (cases "EEPROM_ReadData m")
  have v: "v = ucast (cells m (unat (addr m)))"
    using rd Suc.prems(3) unat_addr_12 [OF ab] by (auto simp: EEPROM_ReadData_def load_def)
  let ?m2 = "m1\<lparr>user := (user m1)(pData + unat i := ucast v)\<rparr>"
  let ?ps = "replicate (latency m) (Load INTSTAT (intstat m))
               @ [Load INTSTAT (intstat m OR EEPROM_INT_ENDOFRW),
                  Store INTSTATCLR EEPROM_INT_ENDOFRW]"
  have m1: "m1 = m\<lparr>addr := addr m + 1, pending := pending m OR EEPROM_INT_ENDOFRW,
                      busy := latency m, bus := bus m @ [Load RDATA v]\<rparr>"
    using rd Suc.prems(3) by (auto simp: EEPROM_ReadData_def load_def)
  have w: "\<exists>m3. EEPROM_WaitForIntStatus EEPROM_INT_ENDOFRW ?m2 = Some m3 \<and> settled m3
             \<and> \<not> bit (intstat m3) 26 \<and> cmd m3 = cmd m \<and> cells m3 = cells m
             \<and> addr m3 = addr m + 1 \<and> bus m3 = bus m @ Load RDATA v # ?ps"
    using Suc.prems(1,2)
    by (subst wait_end_of_rw) (simp_all add: m1 settled_def bit_simps)
  then obtain m3 where m3: "EEPROM_WaitForIntStatus EEPROM_INT_ENDOFRW ?m2 = Some m3"
    "settled m3" "\<not> bit (intstat m3) 26" "cmd m3 = cmd m" "cells m3 = cells m"
    "addr m3 = addr m + 1" "bus m3 = bus m @ Load RDATA v # ?ps"
    by blast
  have ps: "rdata_loads ?ps = []" "wdata_stores ?ps = []" "control_stores ?ps = []"
    by simp_all
  have "\<exists>m' es. EEPROM_Read_loop pData n (i + 1) m3 = Some (n, m') \<and> bus m' = bus m3 @ es
          \<and> rdata_loads es
              = map (\<lambda>j. ucast (cells m3 (unat (addr m3) + j))) [0..<unat n - unat (i + 1)]
          \<and> wdata_stores es = [] \<and> control_stores es = []"
    using Suc.hyps(2) Suc.prems(3,5) lt nxt m3 anxt ulit
    by (intro Suc.hyps(1)) (simp_all add: word_le_nat_alt word_less_nat_alt)
  then obtain m' es where m': "EEPROM_Read_loop pData n (i + 1) m3 = Some (n, m')"
    "bus m' = bus m3 @ es"
    "rdata_loads es = map (\<lambda>j. ucast (cells m (Suc (unat (addr m) + j)))) [0..<d]"
    "wdata_stores es = []" "control_stores es = []"
    by (auto simp: m3 nxt anxt d)
  have "EEPROM_Read_loop pData n i m = Some (n, m')"
    using lt rd m3(1) m'(1) by (subst EEPROM_Read_loop.simps) simp
  moreover have "bus m' = bus m @ (Load RDATA v # ?ps @ es)"
    by (simp add: m'(2) m3(7))
  moreover have "rdata_loads (Load RDATA v # ?ps @ es)
                 = map (\<lambda>j. ucast (cells m (unat (addr m) + j))) [0..<unat n - unat i]"
    unfolding d(1) map_upt_Suc by (simp add: ps m'(3) v del: upt_Suc)
  moreover have "wdata_stores (Load RDATA v # ?ps @ es) = []"
    "control_stores (Load RDATA v # ?ps @ es) = []"
    by (simp_all add: ps m'(4,5))
  ultimately show ?case
    by blast
qed

lemma EEPROM_Read_traffic:
  assumes "settled m" and "unat pageAddr < 64" and "unat pageOffset < 64"
    and "unat pageOffset + unat n \<le> 64"
  shows "\<exists>m' es. EEPROM_Read pageOffset pageAddr pData n m = Some (n, m') \<and> bus m' = bus m @ es
           \<and> rdata_loads es
               = map (\<lambda>j. ucast (cells m (64 * unat pageAddr + unat pageOffset + j))) [0..<unat n]
           \<and> wdata_stores es = []
           \<and> control_stores es = [Store ADDR (push_bit 6 pageAddr OR pageOffset),
                                   Store CMD (EEPROM_CMD_8BITS_READ OR EEPROM_CMD_RDPREFETCH)]"
proof -
  let ?m0 = "m\<lparr>calls := calls m @ [Call_Read pageOffset pageAddr pData n]\<rparr>"
  let ?m3 = "EEPROM_SetCmd (EEPROM_CMD_8BITS_READ OR EEPROM_CMD_RDPREFETCH)
               (EEPROM_SetAddr pageAddr pageOffset
                 (EEPROM_ClearIntStatus EEPROM_INT_ENDOFRW ?m0))"
  let ?pre = "[Store INTSTATCLR EEPROM_INT_ENDOFRW, Store ADDR (push_bit 6 pageAddr OR pageOffset),
               Store CMD (EEPROM_CMD_8BITS_READ OR EEPROM_CMD_RDPREFETCH)]"
  have ne: "EEPROM_CMD_8BITS_READ OR EEPROM_CMD_RDPREFETCH \<noteq> EEPROM_CMD_ERASE_PRG_PAGE"
    by (simp add: EEPROM_CMD_8BITS_READ_def EEPROM_CMD_RDPREFETCH_def
        EEPROM_CMD_ERASE_PRG_PAGE_def)
  have s: "settled ?m3" "\<not> bit (intstat ?m3) 26"
    "cmd ?m3 = EEPROM_CMD_8BITS_READ OR EEPROM_CMD_RDPREFETCH"
    "cells ?m3 = cells m" "bus ?m3 = bus m @ ?pre"
    "addr ?m3 = push_bit 6 pageAddr OR pageOffset"
    using assms(1) ne
    by (simp_all add: settled_def EEPROM_SetCmd_def EEPROM_SetAddr_def
        EEPROM_ClearIntStatus_def store_def bit_simps)
  have a: "unat (addr ?m3) = 64 * unat pageAddr + unat pageOffset"
    unfolding s(6) using assms(2,3) by (rule unat_page_address)
  have b: "unat (addr ?m3) + (unat n - unat (0 :: u32)) \<le> 4096"
    using assms(2,4) by (simp add: a)
  obtain m' es where m': "EEPROM_Read_loop pData n 0 ?m3 = Some (n, m')" "bus m' = bus ?m3 @ es"
    "rdata_loads es = map (\<lambda>j. ucast (cells ?m3 (unat (addr ?m3) + j)))
                        [0..<unat n - unat (0 :: u32)]"
    "wdata_stores es = []" "control_stores es = []"
    using EEPROM_Read_loop_traffic [OF s(1,2,3) _ b, of pData] by auto
  have "EEPROM_Read pageOffset pageAddr pData n m = Some (n, m')"
    using m'(1) by (simp add: EEPROM_Read_def Let_def)
  moreover have "bus m' = bus m @ (?pre @ es)"
    by (simp add: m'(2) s(5))
  moreover have "rdata_loads (?pre @ es)
               = map (\<lambda>j. ucast (cells m (64 * unat pageAddr + unat pageOffset + j))) [0..<unat n]"
    unfolding rdata_loads_append m'(3) s(4) a by simp
  moreover have "wdata_stores (?pre @ es) = []"
    "control_stores (?pre @ es) = [Store ADDR (push_bit 6 pageAddr OR pageOffset),
                                   Store CMD (EEPROM_CMD_8BITS_READ OR EEPROM_CMD_RDPREFETCH)]"
    by (simp_all add: m'(4,5))
  ultimately show ?thesis
    by blast
qed

lemma unat_addr_6:
  fixes a :: u32
  assumes "unat a < 64"
  shows "unat (a AND 63) = unat a"
  using assms by (simp add: and63 unsigned_take_bit_eq take_bit_nat_def)

lemma EEPROM_WritePageRegister_loop_traffic:
  assumes "settled m" and "\<not> bit (intstat m) 26"
    and "cmd m = EEPROM_CMD_8BITS_WRITE" and "i \<le> n"
    and "unat (addr m) + (unat n - unat i) \<le> 64"
  shows "\<exists>m' es. EEPROM_WritePageRegister_loop pData n i m = Some (n, m')
           \<and> bus m' = bus m @ es \<and> cells m' = cells m
           \<and> page_register m' =
                 (\<lambda>x. if unat (addr m) \<le> x \<and> x < unat (addr m) + (unat n - unat i)
                      then user m (pData + unat i + (x - unat (addr m)))
                      else page_register m x)
           \<and> rdata_loads es = []
           \<and> wdata_stores es = map (\<lambda>j. ucast (user m (pData + unat i + j))) [0..<unat n - unat i]
           \<and> control_stores es = []"
  using assms
proof (induction "unat n - unat i" arbitrary: i m)
  case 0
  then have "i = n"
    by (simp add: word_le_nat_alt word_unat_eq_iff)
  then show ?case
    by (subst EEPROM_WritePageRegister_loop.simps) (auto simp: fun_eq_iff)
next
  case (Suc d)
  then have lt: "i < n"
    by (simp add: word_less_nat_alt)
  then have nxt: "unat (i + 1) = Suc (unat i)"
    by unat_arith
  have ulit: "unat i < unat n"
    using lt by (simp add: word_less_nat_alt)
  have d: "unat n - unat i = Suc d" "unat n - Suc (unat i) = d"
    using Suc.hyps(2) by simp_all
  have ab: "unat (addr m) < 64"
    using Suc.prems(5) ulit by simp
  then have anxt: "unat (addr m + 1) = Suc (unat (addr m))"
    by (subst unat_add_lem [THEN iffD1]) simp_all
  define v where "v = (ucast (user m (pData + unat i)) :: u32)"
  let ?m1 = "EEPROM_WriteData v m"
  let ?ps = "replicate (latency m) (Load INTSTAT (intstat m))
               @ [Load INTSTAT (intstat m OR EEPROM_INT_ENDOFRW),
                  Store INTSTATCLR EEPROM_INT_ENDOFRW]"
  have w: "\<exists>m2. EEPROM_WaitForIntStatus EEPROM_INT_ENDOFRW ?m1 = Some m2 \<and> settled m2
             \<and> \<not> bit (intstat m2) 26 \<and> cmd m2 = cmd m \<and> cells m2 = cells m
             \<and> user m2 = user m \<and> addr m2 = addr m + 1
             \<and> page_register m2 = (page_register m)(unat (addr m) := user m (pData + unat i))
             \<and> bus m2 = bus m @ Store WDATA v # ?ps"
    using Suc.prems(1,2,3) unat_addr_6 [OF ab]
    by (subst wait_end_of_rw)
       (simp_all add: EEPROM_WriteData_def store_def settled_def bit_simps v_def
          byte_through_register)
  then obtain m2 where m2: "EEPROM_WaitForIntStatus EEPROM_INT_ENDOFRW ?m1 = Some m2"
    "settled m2" "\<not> bit (intstat m2) 26" "cmd m2 = cmd m" "cells m2 = cells m"
    "user m2 = user m" "addr m2 = addr m + 1"
    "page_register m2 = (page_register m)(unat (addr m) := user m (pData + unat i))"
    "bus m2 = bus m @ Store WDATA v # ?ps"
    by blast
  have "\<exists>m' es. EEPROM_WritePageRegister_loop pData n (i + 1) m2 = Some (n, m')
           \<and> bus m' = bus m2 @ es \<and> cells m' = cells m2
           \<and> page_register m' =
                 (\<lambda>x. if unat (addr m2) \<le> x \<and> x < unat (addr m2) + (unat n - unat (i + 1))
                      then user m2 (pData + unat (i + 1) + (x - unat (addr m2)))
                      else page_register m2 x)
           \<and> rdata_loads es = []
           \<and> wdata_stores es
               = map (\<lambda>j. ucast (user m2 (pData + unat (i + 1) + j))) [0..<unat n - unat (i + 1)]
           \<and> control_stores es = []"
    using Suc.hyps(2) Suc.prems(3,5) lt nxt m2 anxt ulit
    by (intro Suc.hyps(1)) (simp_all add: word_le_nat_alt word_less_nat_alt)
  then obtain m' es where raw: "EEPROM_WritePageRegister_loop pData n (i + 1) m2 = Some (n, m')"
    "bus m' = bus m2 @ es" "cells m' = cells m2"
    "page_register m' =
       (\<lambda>x. if unat (addr m2) \<le> x \<and> x < unat (addr m2) + (unat n - unat (i + 1))
            then user m2 (pData + unat (i + 1) + (x - unat (addr m2)))
            else page_register m2 x)"
    "rdata_loads es = []"
    "wdata_stores es
       = map (\<lambda>j. ucast (user m2 (pData + unat (i + 1) + j))) [0..<unat n - unat (i + 1)]"
    "control_stores es = []"
    by blast
  have m': "EEPROM_WritePageRegister_loop pData n (i + 1) m2 = Some (n, m')"
    "bus m' = bus m2 @ es" "cells m' = cells m"
    "page_register m' =
       (\<lambda>x. if Suc (unat (addr m)) \<le> x \<and> x < Suc (unat (addr m)) + d
            then user m (pData + Suc (unat i) + (x - Suc (unat (addr m))))
            else ((page_register m)(unat (addr m) := user m (pData + unat i))) x)"
    "rdata_loads es = []"
    "wdata_stores es = map (\<lambda>j. ucast (user m (pData + Suc (unat i) + j))) [0..<d]"
    "control_stores es = []"
         apply (rule raw(1))
        apply (rule raw(2))
    subgoal using raw(3) m2(5) by simp
    subgoal unfolding raw(4) m2(6,7,8) nxt anxt d(2) by (rule refl)
      apply (rule raw(5))
    subgoal unfolding raw(6) m2(6) nxt d(2) by (rule refl)
    apply (rule raw(7))
    done
  have "EEPROM_WritePageRegister_loop pData n i m = Some (n, m')"
    using lt m2(1) m'(1) unfolding v_def
    by (subst EEPROM_WritePageRegister_loop.simps) simp
  moreover have "bus m' = bus m @ (Store WDATA v # ?ps @ es)"
    by (simp add: m'(2) m2(9))
  moreover have "page_register m' x =
                 (if unat (addr m) \<le> x \<and> x < unat (addr m) + (unat n - unat i)
                  then user m (pData + unat i + (x - unat (addr m)))
                  else page_register m x)" for x
  proof -
    consider "x = unat (addr m)" | "Suc (unat (addr m)) \<le> x" | "x < unat (addr m)"
      by linarith
    then show ?thesis
    proof cases
      case 1
      then show ?thesis by (simp add: m'(4) d)
    next
      case 2
      then have "pData + Suc (unat i) + (x - Suc (unat (addr m)))
                 = pData + unat i + (x - unat (addr m))"
        by simp
      with 2 show ?thesis by (simp add: m'(4) d)
    next
      case 3
      then show ?thesis by (simp add: m'(4) d)
    qed
  qed
  moreover have "wdata_stores (Store WDATA v # ?ps @ es)
                 = map (\<lambda>j. ucast (user m (pData + unat i + j))) [0..<unat n - unat i]"
    unfolding d(1) map_upt_Suc by (simp add: m'(6) v_def del: upt_Suc)
  moreover have "rdata_loads (Store WDATA v # ?ps @ es) = []"
    "control_stores (Store WDATA v # ?ps @ es) = []"
    by (simp_all add: m'(5,7))
  ultimately show ?case
    using m'(3) by blast
qed


lemma EEPROM_WritePageRegister_traffic:
  assumes "settled m" and "unat pageOffset + unat n \<le> 64"
  shows "\<exists>m' es. EEPROM_WritePageRegister pageOffset pData n m = Some (n, m')
           \<and> bus m' = bus m @ es \<and> cells m' = cells m
           \<and> page_register m' =
                 (\<lambda>x. if unat pageOffset \<le> x \<and> x < unat pageOffset + unat n
                      then user m (pData + (x - unat pageOffset))
                      else page_register m x)
           \<and> rdata_loads es = []
           \<and> wdata_stores es = map (\<lambda>j. ucast (user m (pData + j))) [0..<unat n]
           \<and> control_stores es = [Store CMD EEPROM_CMD_8BITS_WRITE,
                                   Store ADDR (push_bit 6 0 OR ucast pageOffset)]"
proof -
  let ?c = "Call_WritePageRegister pageOffset (map (\<lambda>i. user m (pData + i)) [0..<unat n])"
  let ?m0 = "m\<lparr>calls := calls m @ [?c]\<rparr>"
  let ?m3 = "EEPROM_SetAddr 0 (ucast pageOffset)
               (EEPROM_SetCmd EEPROM_CMD_8BITS_WRITE
                 (EEPROM_ClearIntStatus EEPROM_INT_ENDOFRW ?m0))"
  let ?pre = "[Store INTSTATCLR EEPROM_INT_ENDOFRW, Store CMD EEPROM_CMD_8BITS_WRITE,
               Store ADDR (push_bit 6 0 OR ucast pageOffset)]"
  have ne: "EEPROM_CMD_8BITS_WRITE \<noteq> EEPROM_CMD_ERASE_PRG_PAGE"
    by (simp add: EEPROM_CMD_8BITS_WRITE_def EEPROM_CMD_ERASE_PRG_PAGE_def)
  have s: "settled ?m3" "\<not> bit (intstat ?m3) 26" "cmd ?m3 = EEPROM_CMD_8BITS_WRITE"
    "cells ?m3 = cells m" "user ?m3 = user m" "page_register ?m3 = page_register m"
    "bus ?m3 = bus m @ ?pre" "addr ?m3 = ucast pageOffset"
    using assms(1) ne
    by (simp_all add: settled_def EEPROM_SetCmd_def EEPROM_SetAddr_def
        EEPROM_ClearIntStatus_def store_def bit_simps)
  have a: "unat (addr ?m3) = unat pageOffset"
    unfolding s(8) by (rule unat_ucast_16_32)
  have b: "unat (addr ?m3) + (unat n - unat (0 :: u32)) \<le> 64"
    using assms(2) by (simp add: a)
  obtain m' es where raw: "EEPROM_WritePageRegister_loop pData n 0 ?m3 = Some (n, m')"
    "bus m' = bus ?m3 @ es" "cells m' = cells ?m3"
    "page_register m' =
       (\<lambda>x. if unat (addr ?m3) \<le> x \<and> x < unat (addr ?m3) + (unat n - unat (0 :: u32))
            then user ?m3 (pData + unat (0 :: u32) + (x - unat (addr ?m3)))
            else page_register ?m3 x)"
    "rdata_loads es = []"
    "wdata_stores es
       = map (\<lambda>j. ucast (user ?m3 (pData + unat (0 :: u32) + j))) [0..<unat n - unat (0 :: u32)]"
    "control_stores es = []"
    using EEPROM_WritePageRegister_loop_traffic [OF s(1,2,3) _ b, of pData] by auto
  have z: "unat (0 :: u32) = 0" "k - (0 :: nat) = k" "k + (0 :: nat) = k" for k
    by simp_all
  have "EEPROM_WritePageRegister pageOffset pData n m = Some (n, m')"
    using raw(1) by (simp add: EEPROM_WritePageRegister_def Let_def)
  moreover have "bus m' = bus m @ (?pre @ es)"
    by (simp add: raw(2) s(7))
  moreover have "cells m' = cells m"
    by (simp add: raw(3) s(4))
  moreover have "page_register m' =
                 (\<lambda>x. if unat pageOffset \<le> x \<and> x < unat pageOffset + unat n
                      then user m (pData + (x - unat pageOffset))
                      else page_register m x)"
    unfolding raw(4) a s(5) s(6) z by (rule refl)
  moreover have "wdata_stores (?pre @ es) = map (\<lambda>j. ucast (user m (pData + j))) [0..<unat n]"
    unfolding wdata_stores_append raw(6) s(5) z by simp
  moreover have "rdata_loads (?pre @ es) = []"
    "control_stores (?pre @ es) = [Store CMD EEPROM_CMD_8BITS_WRITE,
                                   Store ADDR (push_bit 6 0 OR ucast pageOffset)]"
    by (simp_all add: raw(5,7))
  ultimately show ?thesis
    by blast
qed

lemma unat_program_page:
  fixes pageAddr :: u32
  assumes "unat pageAddr < 64"
  shows "unat (drop_bit 6 (push_bit 6 pageAddr OR 0) AND 63) = unat pageAddr"
proof -
  have "unat (push_bit 6 pageAddr OR 0) = 64 * unat pageAddr + unat (0 :: u32)"
    using assms by (intro unat_page_address) simp_all
  then have "unat (drop_bit 6 (push_bit 6 pageAddr OR 0)) = unat pageAddr"
    by (simp add: drop_bit_eq_div unat_div)
  then show ?thesis
    using assms by (simp add: and63 unsigned_take_bit_eq take_bit_nat_def)
qed

lemma EEPROM_EraseProgramPage_effect:
  assumes "settled m" and "unat pageAddr < 64"
  shows "\<exists>m' es. EEPROM_EraseProgramPage pageAddr m = Some m' \<and> bus m' = bus m @ es
           \<and> cells m' = program_page (unat pageAddr) (page_register m) (cells m)
           \<and> page_register m' = page_register m
           \<and> rdata_loads es = [] \<and> wdata_stores es = []
           \<and> control_stores es = [Store ADDR (push_bit 6 (ucast pageAddr) OR 0),
                                   Store CMD EEPROM_CMD_ERASE_PRG_PAGE]"
proof -
  have p: "unat (drop_bit 6 (push_bit 6 (ucast pageAddr :: u32) OR 0) AND 63) = unat pageAddr"
    using assms(2) by (subst unat_program_page) (simp_all add: unat_ucast_16_32)
  let ?es = "[Store INTSTATCLR EEPROM_CMD_ERASE_PRG_PAGE,
              Store ADDR (push_bit 6 (ucast pageAddr) OR 0),
              Store CMD EEPROM_CMD_ERASE_PRG_PAGE]
             @ replicate (latency m) (Load INTSTAT (intstat m AND NOT EEPROM_CMD_ERASE_PRG_PAGE))
             @ [Load INTSTAT ((intstat m AND NOT EEPROM_CMD_ERASE_PRG_PAGE)
                               OR EEPROM_INT_ENDOFPROG),
                Store INTSTATCLR EEPROM_INT_ENDOFPROG]"
  have "\<exists>m'. EEPROM_EraseProgramPage pageAddr m = Some m' \<and> bus m' = bus m @ ?es
           \<and> cells m' = program_page (unat pageAddr) (page_register m) (cells m)
           \<and> page_register m' = page_register m"
    using assms(1) p
    unfolding EEPROM_EraseProgramPage_def Let_def
    by (subst wait_end_of_prog)
       (simp_all add: settled_def EEPROM_SetCmd_def EEPROM_SetAddr_def
          EEPROM_ClearIntStatus_def store_def bit_simps)
  moreover have "rdata_loads ?es = []" "wdata_stores ?es = []"
    "control_stores ?es = [Store ADDR (push_bit 6 (ucast pageAddr) OR 0),
                           Store CMD EEPROM_CMD_ERASE_PRG_PAGE]"
    by simp_all
  ultimately show ?thesis
    by blast
qed


lemma map_window: "map (\<lambda>j. f (a + j)) [0..<c] = map f [a..<a + c]"
  by (induction c) simp_all

lemma window_split: "c \<le> n \<Longrightarrow> [p..<p + c] @ [p + c..<p + c + (n - c)] = [p..<p + (n::nat)]"
  using upt_add_eq_append [of p "p + c" "n - c"] by simp

lemma spec_read_control_Cons:
  "spec_read_control ((buf, page, page_offset, chunk) # cs) =
     [Store ADDR (push_bit 6 (of_nat page) OR of_nat page_offset),
      Store CMD (EEPROM_CMD_8BITS_READ OR EEPROM_CMD_RDPREFETCH)] @ spec_read_control cs"
  by (simp add: spec_read_control_def)

lemma spec_write_control_Cons:
  "spec_write_control ((buf, page, page_offset, chunk) # cs) =
     [Store CMD EEPROM_CMD_8BITS_WRITE,
      Store ADDR (push_bit 6 0 OR of_nat page_offset),
      Store ADDR (push_bit 6 (of_nat page) OR 0),
      Store CMD EEPROM_CMD_ERASE_PRG_PAGE] @ spec_write_control cs"
  by (simp add: spec_write_control_def)

lemma eeprom_read_loop_traffic:
  assumes "settled m" and "unat offset + unat to_read \<le> 4032"
  shows "\<exists>m' es. eeprom_read_loop buffer to_read offset m = Some (offset + ucast to_read, m')
           \<and> bus m' = bus m @ es \<and> cells m' = cells m
           \<and> user m' = chunks_stored_at buffer (cells m)
                          (spec_chunks b (unat offset) (unat to_read)) (user m)
           \<and> rdata_loads es
               = map (\<lambda>a. ucast (cells m a)) [unat offset..<unat offset + unat to_read]
           \<and> wdata_stores es = []
           \<and> control_stores es = spec_read_control (spec_chunks b (unat offset) (unat to_read))"
  using assms
proof (induction "unat to_read" arbitrary: to_read offset m b rule: less_induct)
  case less
  show ?case
  proof (cases "to_read = 0")
    case True
    then show ?thesis
      by (subst eeprom_read_loop.simps) (simp add: spec_read_control_def)
  next
    case False
    then have pos: "0 < to_read"
      by (simp add: word_neq_0_conv)
    then have npos: "0 < unat to_read"
      by (simp add: word_less_nat_alt)
    define po where "po = (ucast (offset AND (of_nat EEPROM_PAGE_SIZE - 1)) :: size_t)"
    define page where "page = (ucast (signed_drop_bit 6 offset) :: u16)"
    define rb where "rb = (if to_read > of_nat EEPROM_PAGE_SIZE - po
                           then of_nat EEPROM_PAGE_SIZE - po else to_read)"
    define c where "c = min (unat to_read) (64 - unat offset mod 64)"
    define p where "p = unat offset"
    define n where "n = unat to_read"
    have upo: "unat po = p mod 64"
      by (simp add: po_def p_def unat_page_offset)
    have upage: "unat (ucast page :: u32) = p div 64"
      using less.prems(2) by (simp add: page_def p_def unat_page unat_ucast_16_32)
    have urb: "unat rb = c"
      using unat_chunk [of po to_read] pos upo by (simp add: rb_def c_def p_def)
    have cpos: "0 < c" "c \<le> n" "p mod 64 + c \<le> 64"
      using npos by (simp_all add: c_def n_def p_def)
    have rest: "unat (to_read - rb) = n - c"
      using cpos urb unfolding n_def by (subst unat_sub) (simp_all add: word_le_nat_alt)
    have adv: "unat (offset + ucast rb) = p + c"
      using less.prems(2) cpos urb unfolding n_def p_def
      by (subst unat_add_lem [THEN iffD1]) (simp_all add: unat_ucast_32_64)
    have total: "offset + ucast rb + ucast (to_read - rb) = offset + ucast to_read"
      using cpos urb rest less.prems(2) unfolding n_def p_def
      by (simp add: word_unat_eq_iff unat_word_ariths unat_ucast_32_64)
    have pg: "unat (ucast page :: u32) < 64"
      using less.prems(2) unfolding upage p_def by simp
    have here: "64 * (p div 64) + p mod 64 = p"
      by simp
    obtain m1 where m1: "EEPROM_Read po (ucast page) buffer rb m = Some (rb, m1)" "settled m1"
      using EEPROM_Read_returns [OF less.prems(1), of po "ucast page" buffer rb] by blast
    have "\<exists>m'. EEPROM_Read po (ucast page) buffer rb m = Some (rb, m') \<and> cells m' = cells m
           \<and> (\<forall>a. user m' a =
                  (if buffer \<le> a \<and> a < buffer + unat rb
                   then cells m (64 * unat (ucast page :: u32) + unat po + (a - buffer))
                   else user m a))"
      using cpos by (intro EEPROM_Read_delivers less.prems(1) pg) (simp_all add: upo urb)
    then have d1: "cells m1 = cells m"
      "user m1 = (\<lambda>a. if buffer \<le> a \<and> a < buffer + c
                      then cells m (64 * (p div 64) + p mod 64 + (a - buffer))
                      else user m a)"
      unfolding m1(1) upage upo urb by auto
    have "\<exists>m' es. EEPROM_Read po (ucast page) buffer rb m = Some (rb, m') \<and> bus m' = bus m @ es
           \<and> rdata_loads es
               = map (\<lambda>j. ucast (cells m (64 * unat (ucast page :: u32) + unat po + j)))
                   [0..<unat rb]
           \<and> wdata_stores es = []
           \<and> control_stores es = [Store ADDR (push_bit 6 (ucast page) OR po),
                                   Store CMD (EEPROM_CMD_8BITS_READ OR EEPROM_CMD_RDPREFETCH)]"
      using cpos by (intro EEPROM_Read_traffic less.prems(1) pg) (simp_all add: upo urb)
    then obtain es1 where t1: "bus m1 = bus m @ es1"
      "rdata_loads es1 = map (\<lambda>j. ucast (cells m (p + j))) [0..<c]"
      "wdata_stores es1 = []"
      "control_stores es1 = [Store ADDR (push_bit 6 (ucast page) OR po),
                             Store CMD (EEPROM_CMD_8BITS_READ OR EEPROM_CMD_RDPREFETCH)]"
      unfolding m1(1) upage upo urb here by auto
    have "\<exists>m' es. eeprom_read_loop buffer (to_read - rb) (offset + ucast rb) m1
                 = Some (offset + ucast rb + ucast (to_read - rb), m')
           \<and> bus m' = bus m1 @ es \<and> cells m' = cells m1
           \<and> user m' = chunks_stored_at buffer (cells m1)
                          (spec_chunks (b + c) (unat (offset + ucast rb)) (unat (to_read - rb)))
                          (user m1)
           \<and> rdata_loads es
               = map (\<lambda>a. ucast (cells m1 a))
                   [unat (offset + ucast rb)..<unat (offset + ucast rb) + unat (to_read - rb)]
           \<and> wdata_stores es = []
           \<and> control_stores es
               = spec_read_control
                   (spec_chunks (b + c) (unat (offset + ucast rb)) (unat (to_read - rb)))"
      using cpos npos less.prems(2) m1(2)
      by (intro less.hyps) (simp_all add: rest adv n_def p_def)
    then obtain m' es where m': "eeprom_read_loop buffer (to_read - rb) (offset + ucast rb) m1
                 = Some (offset + ucast to_read, m')"
      "bus m' = bus m1 @ es" "cells m' = cells m"
      "user m' = chunks_stored_at buffer (cells m) (spec_chunks (b + c) (p + c) (n - c)) (user m1)"
      "rdata_loads es = map (\<lambda>a. ucast (cells m a)) [p + c..<p + c + (n - c)]"
      "wdata_stores es = []"
      "control_stores es = spec_read_control (spec_chunks (b + c) (p + c) (n - c))"
      unfolding total rest adv d1(1) by blast
    have chunks: "spec_chunks b p n
                  = (b, p div 64, p mod 64, c) # spec_chunks (b + c) (p + c) (n - c)"
      using npos unfolding c_def n_def p_def by (rule spec_chunks_step)
    have words: "(ucast page :: u32) = of_nat (p div 64)" "po = of_nat (p mod 64)"
      using upage upo by (simp_all add: word_eq_of_nat)
    have step: "eeprom_read_loop buffer to_read offset m =
                  (case EEPROM_Read po (ucast page) buffer rb m of
                     None \<Rightarrow> None
                   | Some (n, m1) \<Rightarrow>
                       eeprom_read_loop buffer (to_read - rb) (offset + ucast rb) m1)"
      unfolding po_def page_def rb_def using pos
      by (subst eeprom_read_loop.simps) (simp add: Let_def)
    have "eeprom_read_loop buffer to_read offset m = Some (offset + ucast to_read, m')"
      by (simp add: step m1(1) m'(1))
    moreover have "bus m' = bus m @ (es1 @ es)"
      by (simp add: m'(2) t1(1))
    moreover have "user m' = chunks_stored_at buffer (cells m) (spec_chunks b p n) (user m)"
      unfolding chunks chunks_stored_at.simps m'(4) d1(2) by (rule refl)
    moreover have "rdata_loads (es1 @ es) = map (\<lambda>a. ucast (cells m a)) [p..<p + n]"
      unfolding rdata_loads_append t1(2) m'(5)
        map_window [of "\<lambda>a. ucast (cells m a)" p c] map_append [symmetric]
        window_split [OF cpos(2)] by (rule refl)
    moreover have "wdata_stores (es1 @ es) = []"
      by (simp add: t1(3) m'(6))
    moreover have "control_stores (es1 @ es) = spec_read_control (spec_chunks b p n)"
      unfolding chunks spec_read_control_Cons control_stores_append t1(4) m'(7) words
      by (rule refl)
    ultimately show ?thesis
      using m'(3) unfolding p_def n_def by blast
  qed
qed


lemma eeprom_write_loop_traffic:
  assumes "settled m" and "unat offset + unat to_write \<le> 4032"
  shows "\<exists>m' es. eeprom_write_loop buffer to_write offset m = Some (offset + ucast to_write, m')
           \<and> bus m' = bus m @ es
           \<and> (page_register m', cells m')
               = chunks_programmed (user m) (spec_chunks buffer (unat offset) (unat to_write))
                   (page_register m, cells m)
           \<and> rdata_loads es = []
           \<and> wdata_stores es = map (\<lambda>a. ucast (user m a)) [buffer..<buffer + unat to_write]
           \<and> control_stores es
               = spec_write_control (spec_chunks buffer (unat offset) (unat to_write))"
  using assms
proof (induction "unat to_write" arbitrary: to_write offset m buffer rule: less_induct)
  case less
  show ?case
  proof (cases "to_write = 0")
    case True
    then show ?thesis
      by (subst eeprom_write_loop.simps) (simp add: spec_write_control_def)
  next
    case False
    then have pos: "0 < to_write"
      by (simp add: word_neq_0_conv)
    then have npos: "0 < unat to_write"
      by (simp add: word_less_nat_alt)
    define po where "po = (ucast (offset AND (of_nat EEPROM_PAGE_SIZE - 1)) :: size_t)"
    define page where "page = (ucast (signed_drop_bit 6 offset) :: u16)"
    define wb where "wb = (if to_write > of_nat EEPROM_PAGE_SIZE - po
                           then of_nat EEPROM_PAGE_SIZE - po else to_write)"
    define c where "c = min (unat to_write) (64 - unat offset mod 64)"
    define p where "p = unat offset"
    define n where "n = unat to_write"
    have upo: "unat po = p mod 64"
      by (simp add: po_def p_def unat_page_offset)
    have upo16: "unat (ucast po :: u16) = p mod 64"
      using upo by (simp add: unat_ucast_32_16)
    have upage: "unat page = p div 64"
      using less.prems(2) by (simp add: page_def p_def unat_page)
    have uwb: "unat wb = c"
      using unat_chunk [of po to_write] pos upo by (simp add: wb_def c_def p_def)
    have cpos: "0 < c" "c \<le> n" "p mod 64 + c \<le> 64"
      using npos by (simp_all add: c_def n_def p_def)
    have rest: "unat (to_write - wb) = n - c"
      using cpos uwb unfolding n_def by (subst unat_sub) (simp_all add: word_le_nat_alt)
    have adv: "unat (offset + ucast wb) = p + c"
      using less.prems(2) cpos uwb unfolding n_def p_def
      by (subst unat_add_lem [THEN iffD1]) (simp_all add: unat_ucast_32_64)
    have total: "offset + ucast wb + ucast (to_write - wb) = offset + ucast to_write"
      using cpos uwb rest less.prems(2) unfolding n_def p_def
      by (simp add: word_unat_eq_iff unat_word_ariths unat_ucast_32_64)
    have pg: "unat page < 64"
      using less.prems(2) unfolding upage p_def by simp
    define pr' where "pr' = (\<lambda>x. if p mod 64 \<le> x \<and> x < p mod 64 + c
                                  then user m (buffer + (x - p mod 64))
                                  else page_register m x)"
    obtain m1 where m1: "EEPROM_WritePageRegister (ucast po) buffer wb m = Some (wb, m1)"
      "settled m1" "user m1 = user m"
      using EEPROM_WritePageRegister_returns [OF less.prems(1), of "ucast po" buffer wb]
      by blast
    have "\<exists>m' es. EEPROM_WritePageRegister (ucast po) buffer wb m = Some (wb, m')
           \<and> bus m' = bus m @ es \<and> cells m' = cells m
           \<and> page_register m' =
                 (\<lambda>x. if unat (ucast po :: u16) \<le> x \<and> x < unat (ucast po :: u16) + unat wb
                      then user m (buffer + (x - unat (ucast po :: u16)))
                      else page_register m x)
           \<and> rdata_loads es = []
           \<and> wdata_stores es = map (\<lambda>j. ucast (user m (buffer + j))) [0..<unat wb]
           \<and> control_stores es = [Store CMD EEPROM_CMD_8BITS_WRITE,
                                   Store ADDR (push_bit 6 0 OR ucast (ucast po :: u16))]"
      using cpos by (intro EEPROM_WritePageRegister_traffic less.prems(1)) (simp add: upo16 uwb)
    then obtain es1 where t1: "bus m1 = bus m @ es1" "cells m1 = cells m"
      "page_register m1 = pr'"
      "rdata_loads es1 = []"
      "wdata_stores es1 = map (\<lambda>j. ucast (user m (buffer + j))) [0..<c]"
      "control_stores es1 = [Store CMD EEPROM_CMD_8BITS_WRITE,
                             Store ADDR (push_bit 6 0 OR ucast (ucast po :: u16))]"
      unfolding m1(1) upo16 uwb pr'_def by auto
    obtain m2 where m2: "EEPROM_EraseProgramPage page m1 = Some m2" "settled m2"
      "user m2 = user m1"
      using EEPROM_EraseProgramPage_returns [OF m1(2), of page] by blast
    obtain es2 where t2: "bus m2 = bus m1 @ es2"
      "cells m2 = program_page (p div 64) pr' (cells m)" "page_register m2 = pr'"
      "rdata_loads es2 = []" "wdata_stores es2 = []"
      "control_stores es2 = [Store ADDR (push_bit 6 (ucast page) OR 0),
                             Store CMD EEPROM_CMD_ERASE_PRG_PAGE]"
      using EEPROM_EraseProgramPage_effect [OF m1(2) pg]
      unfolding m2(1) upage t1(2,3) by auto
    have "\<exists>m' es. eeprom_write_loop (buffer + unat wb) (to_write - wb) (offset + ucast wb) m2
                 = Some (offset + ucast wb + ucast (to_write - wb), m')
           \<and> bus m' = bus m2 @ es
           \<and> (page_register m', cells m')
               = chunks_programmed (user m2)
                   (spec_chunks (buffer + unat wb) (unat (offset + ucast wb))
                      (unat (to_write - wb)))
                   (page_register m2, cells m2)
           \<and> rdata_loads es = []
           \<and> wdata_stores es
               = map (\<lambda>a. ucast (user m2 a))
                   [buffer + unat wb..<buffer + unat wb + unat (to_write - wb)]
           \<and> control_stores es
               = spec_write_control
                   (spec_chunks (buffer + unat wb) (unat (offset + ucast wb))
                      (unat (to_write - wb)))"
      using cpos npos less.prems(2) m2(2)
      by (intro less.hyps) (simp_all add: rest adv n_def p_def)
    then obtain m' es where m': "eeprom_write_loop (buffer + unat wb) (to_write - wb)
                 (offset + ucast wb) m2 = Some (offset + ucast to_write, m')"
      "bus m' = bus m2 @ es"
      "(page_register m', cells m')
         = chunks_programmed (user m) (spec_chunks (buffer + c) (p + c) (n - c))
             (pr', program_page (p div 64) pr' (cells m))"
      "rdata_loads es = []"
      "wdata_stores es = map (\<lambda>a. ucast (user m a)) [buffer + c..<buffer + c + (n - c)]"
      "control_stores es = spec_write_control (spec_chunks (buffer + c) (p + c) (n - c))"
      unfolding total rest adv uwb m2(3) m1(3) t2(2,3) by blast
    have chunks: "spec_chunks buffer p n
                  = (buffer, p div 64, p mod 64, c) # spec_chunks (buffer + c) (p + c) (n - c)"
      using npos unfolding c_def n_def p_def by (rule spec_chunks_step)
    have words: "(ucast page :: u32) = of_nat (p div 64)"
      "(ucast (ucast po :: u16) :: u32) = of_nat (p mod 64)"
      using upage upo16 by (simp_all add: word_eq_of_nat unat_ucast_16_32)
    have step: "eeprom_write_loop buffer to_write offset m =
                  (case EEPROM_WritePageRegister (ucast po) buffer wb m of
                     None \<Rightarrow> None
                   | Some (n, m1) \<Rightarrow>
                       (case EEPROM_EraseProgramPage page m1 of
                          None \<Rightarrow> None
                        | Some m2 \<Rightarrow>
                            eeprom_write_loop (buffer + unat wb) (to_write - wb)
                              (offset + ucast wb) m2))"
      unfolding po_def page_def wb_def using pos
      by (subst eeprom_write_loop.simps) (simp add: Let_def)
    have "eeprom_write_loop buffer to_write offset m = Some (offset + ucast to_write, m')"
      by (simp add: step m1(1) m2(1) m'(1))
    moreover have "bus m' = bus m @ (es1 @ es2 @ es)"
      by (simp add: m'(2) t2(1) t1(1))
    moreover have "(page_register m', cells m')
                   = chunks_programmed (user m) (spec_chunks buffer p n)
                       (page_register m, cells m)"
      unfolding chunks chunks_programmed.simps Let_def m'(3) pr'_def by (rule refl)
    moreover have "wdata_stores (es1 @ es2 @ es)
                   = map (\<lambda>a. ucast (user m a)) [buffer..<buffer + n]"
      unfolding wdata_stores_append t1(5) t2(5) m'(5) append_Nil
        map_window [of "\<lambda>a. ucast (user m a)" buffer c] map_append [symmetric]
        window_split [OF cpos(2)] by (rule refl)
    moreover have "rdata_loads (es1 @ es2 @ es) = []"
      by (simp add: t1(4) t2(4) m'(4))
    moreover have "control_stores (es1 @ es2 @ es) = spec_write_control (spec_chunks buffer p n)"
      unfolding chunks spec_write_control_Cons control_stores_append t1(6) t2(6) m'(6) words
      by simp
    ultimately show ?thesis
      unfolding p_def n_def by blast
  qed
qed


section \<open>The device after a write\<close>

lemma within_page:
  fixes p i :: nat
  assumes "p mod 64 + i < 64"
  shows "(p + i) div 64 = p div 64" and "(p + i) mod 64 = p mod 64 + i"
proof -
  have "(p + i) mod 64 = (p mod 64 + i) mod 64"
    by (simp add: mod_add_left_eq)
  then show "(p + i) mod 64 = p mod 64 + i"
    using assms by simp
  show "(p + i) div 64 = p div 64"
    using assms by (simp add: div_add1_eq [of p i])
qed

lemma next_page:
  fixes p c :: nat
  assumes "c = 64 - p mod 64"
  shows "(p + c) div 64 = Suc (p div 64)"
proof -
  have "p mod 64 + c = 64"
    using assms by simp
  moreover have "p + c = 64 * (p div 64) + (p mod 64 + c)"
    by simp
  ultimately have "p + c = 64 * Suc (p div 64)"
    by simp
  then show ?thesis
    by simp
qed

lemma chunks_programmed_below:
  "a div 64 < p div 64 \<Longrightarrow>
   snd (chunks_programmed mem (spec_chunks buf p n) (pr, dev)) a = dev a"
proof (induction n arbitrary: buf p pr dev rule: less_induct)
  case (less n)
  show ?case
  proof (cases "n = 0")
    case True
    then show ?thesis by simp
  next
    case False
    define c where "c = min n (64 - p mod 64)"
    define pr' where "pr' = (\<lambda>x. if p mod 64 \<le> x \<and> x < p mod 64 + c
                                  then mem (buf + (x - p mod 64)) else pr x)"
    have c: "0 < c" "c \<le> n"
      using False by (simp_all add: c_def)
    have chunks: "spec_chunks buf p n
                  = (buf, p div 64, p mod 64, c) # spec_chunks (buf + c) (p + c) (n - c)"
      using False unfolding c_def by (intro spec_chunks_step) simp
    have "p div 64 \<le> (p + c) div 64"
      by (intro div_le_mono) simp
    then have "a div 64 < (p + c) div 64"
      using less.prems by simp
    then have "snd (chunks_programmed mem (spec_chunks (buf + c) (p + c) (n - c))
                      (pr', program_page (p div 64) pr' dev)) a
               = program_page (p div 64) pr' dev a"
      using c by (intro less.IH) simp_all
    also have "\<dots> = dev a"
      using less.prems by (simp add: program_page_def)
    finally show ?thesis
      unfolding chunks chunks_programmed.simps Let_def pr'_def .
  qed
qed

lemma chunks_programmed_cells:
  "i < n \<Longrightarrow>
   snd (chunks_programmed mem (spec_chunks buf p n) (pr, dev)) (p + i) = mem (buf + i)"
proof (induction n arbitrary: buf p pr dev i rule: less_induct)
  case (less n)
  define c where "c = min n (64 - p mod 64)"
  define pr' where "pr' = (\<lambda>x. if p mod 64 \<le> x \<and> x < p mod 64 + c
                                then mem (buf + (x - p mod 64)) else pr x)"
  have npos: "0 < n"
    using less.prems by simp
  have c: "0 < c" "c \<le> n" "p mod 64 + c \<le> 64"
    using npos by (simp_all add: c_def)
  have chunks: "spec_chunks buf p n
                = (buf, p div 64, p mod 64, c) # spec_chunks (buf + c) (p + c) (n - c)"
    using npos unfolding c_def by (rule spec_chunks_step)
  have unfold: "snd (chunks_programmed mem (spec_chunks buf p n) (pr, dev)) a
                = snd (chunks_programmed mem (spec_chunks (buf + c) (p + c) (n - c))
                         (pr', program_page (p div 64) pr' dev)) a" for a
    unfolding chunks chunks_programmed.simps Let_def pr'_def by (rule refl)
  show ?case
  proof (cases "i < c")
    case True
    then have in_page: "(p + i) div 64 = p div 64" "(p + i) mod 64 = p mod 64 + i"
      using c(3) within_page [of p i] by simp_all
    have first: "program_page (p div 64) pr' dev (p + i) = mem (buf + i)"
      using True by (simp add: program_page_def in_page pr'_def)
    show ?thesis
    proof (cases "n - c = 0")
      case True
      then show ?thesis
        unfolding unfold by (simp add: first)
    next
      case False
      then have "c = 64 - p mod 64"
        by (simp add: c_def min_def split: if_splits)
      then have "(p + c) div 64 = Suc (p div 64)"
        by (rule next_page)
      then have "(p + i) div 64 < (p + c) div 64"
        by (simp add: in_page)
      then show ?thesis
        unfolding unfold by (simp add: chunks_programmed_below first)
    qed
  next
    case False
    then have "snd (chunks_programmed mem (spec_chunks (buf + c) (p + c) (n - c))
                      (pr', program_page (p div 64) pr' dev)) (p + c + (i - c))
               = mem (buf + c + (i - c))"
      using c less.prems by (intro less.IH) simp_all
    then show ?thesis
      unfolding unfold using False by simp
  qed
qed

lemma erase_programs_control: "erase_programs a (control_stores es) = erase_programs a es"
  by (induction es arbitrary: a rule: control_stores.induct) simp_all

lemma erase_programs_write_control:
  "erase_programs a (spec_write_control cs)
   = map (\<lambda>page. push_bit 6 (of_nat page)) (map (\<lambda>(buf, page, page_offset, chunk). page) cs)"
  by (induction cs arbitrary: a)
     (auto simp: spec_write_control_def EEPROM_CMD_8BITS_WRITE_def EEPROM_CMD_ERASE_PRG_PAGE_def)


section \<open>The traffic of a read and of a write\<close>

lemma eeprom_read_traffic:
  assumes "settled m" and "access_ok buffer len" and "unat offset \<le> 4032"
  defines "k \<equiv> min (unat len) (4032 - unat offset)"
  shows "\<exists>m' es. eeprom_read access_ok buffer len offset m
                   = Some (of_nat k, offset + of_nat k, m')
           \<and> bus m' = bus m @ es \<and> cells m' = cells m
           \<and> user m' = chunks_stored_at buffer (cells m) (spec_chunks buffer (unat offset) k)
                          (user m)
           \<and> rdata_loads es = map (\<lambda>a. ucast (cells m a)) [unat offset..<unat offset + k]
           \<and> wdata_stores es = []
           \<and> control_stores es = spec_read_control (spec_chunks buffer (unat offset) k)"
proof -
  define remaining where
    "remaining = (ucast (of_nat (EEPROM_PAGE_SIZE * EEPROM_PAGE_NUM) - offset) :: size_t)"
  define n where "n = (if len > remaining then remaining else len)"
  have un: "unat n = k"
    unfolding n_def remaining_def k_def by (rule unat_clamped [OF assms(3)])
  then have n: "n = of_nat k"
    by (rule word_eq_of_nat)
  have unfold: "eeprom_read access_ok buffer len offset m =
                  (if n = 0 then Some (0, offset, m)
                   else case eeprom_read_loop buffer n offset m of
                          None \<Rightarrow> None
                        | Some (offset', m') \<Rightarrow> Some (ucast n, offset', m'))"
    unfolding eeprom_read_def n_def remaining_def Let_def using assms(2) by simp
  show ?thesis
  proof (cases "n = 0")
    case True
    then have "k = 0" using un by simp
    with True show ?thesis
      by (simp add: unfold spec_read_control_def)
  next
    case False
    have "unat offset + unat n \<le> 4032"
      using assms(3) by (simp add: un k_def)
    then obtain m' es where m': "eeprom_read_loop buffer n offset m = Some (offset + ucast n, m')"
      "bus m' = bus m @ es" "cells m' = cells m"
      "user m' = chunks_stored_at buffer (cells m) (spec_chunks buffer (unat offset) (unat n))
                   (user m)"
      "rdata_loads es = map (\<lambda>a. ucast (cells m a)) [unat offset..<unat offset + unat n]"
      "wdata_stores es = []"
      "control_stores es = spec_read_control (spec_chunks buffer (unat offset) (unat n))"
      using eeprom_read_loop_traffic [OF assms(1), of offset n buffer buffer] by blast
    have "(of_nat (unat n) :: loff_t) = ucast n"
      by simp
    then have n64: "(ucast n :: loff_t) = of_nat k"
      by (simp only: un)
    have "eeprom_read access_ok buffer len offset m = Some (n, offset + of_nat k, m')"
      using False m'(1) by (simp add: unfold n64)
    then have "eeprom_read access_ok buffer len offset m = Some (of_nat k, offset + of_nat k, m')"
      by (simp only: n)
    then show ?thesis
      using m'(2-7) unfolding un by blast
  qed
qed

lemma eeprom_write_traffic:
  assumes "settled m" and "access_ok buffer len" and "unat offset \<le> 4032"
  defines "k \<equiv> min (unat len) (4032 - unat offset)"
  shows "\<exists>m' es. eeprom_write access_ok buffer len offset m
                   = Some (of_nat k, offset + of_nat k, m')
           \<and> bus m' = bus m @ es
           \<and> (page_register m', cells m')
               = chunks_programmed (user m) (spec_chunks buffer (unat offset) k)
                   (page_register m, cells m)
           \<and> rdata_loads es = []
           \<and> wdata_stores es = map (\<lambda>a. ucast (user m a)) [buffer..<buffer + k]
           \<and> control_stores es = spec_write_control (spec_chunks buffer (unat offset) k)"
proof -
  define remaining where
    "remaining = (ucast (of_nat (EEPROM_PAGE_SIZE * EEPROM_PAGE_NUM) - offset) :: size_t)"
  define n where "n = (if len > remaining then remaining else len)"
  have un: "unat n = k"
    unfolding n_def remaining_def k_def by (rule unat_clamped [OF assms(3)])
  then have n: "n = of_nat k"
    by (rule word_eq_of_nat)
  have unfold: "eeprom_write access_ok buffer len offset m =
                  (if n = 0 then Some (0, offset, m)
                   else case eeprom_write_loop buffer n offset m of
                          None \<Rightarrow> None
                        | Some (offset', m') \<Rightarrow> Some (ucast n, offset', m'))"
    unfolding eeprom_write_def n_def remaining_def Let_def using assms(2) by simp
  show ?thesis
  proof (cases "n = 0")
    case True
    then have "k = 0" using un by simp
    with True show ?thesis
      by (simp add: unfold spec_write_control_def)
  next
    case False
    have "unat offset + unat n \<le> 4032"
      using assms(3) by (simp add: un k_def)
    then obtain m' es where m': "eeprom_write_loop buffer n offset m = Some (offset + ucast n, m')"
      "bus m' = bus m @ es"
      "(page_register m', cells m')
         = chunks_programmed (user m) (spec_chunks buffer (unat offset) (unat n))
             (page_register m, cells m)"
      "rdata_loads es = []"
      "wdata_stores es = map (\<lambda>a. ucast (user m a)) [buffer..<buffer + unat n]"
      "control_stores es = spec_write_control (spec_chunks buffer (unat offset) (unat n))"
      using eeprom_write_loop_traffic [OF assms(1), of offset n buffer] by blast
    have "(of_nat (unat n) :: loff_t) = ucast n"
      by simp
    then have n64: "(ucast n :: loff_t) = of_nat k"
      by (simp only: un)
    have "eeprom_write access_ok buffer len offset m = Some (n, offset + of_nat k, m')"
      using False m'(1) by (simp add: unfold n64)
    then have "eeprom_write access_ok buffer len offset m = Some (of_nat k, offset + of_nat k, m')"
      by (simp only: n)
    then show ?thesis
      using m'(2-6) unfolding un by blast
  qed
qed

lemma written_cells:
  assumes "(pr', dev') = chunks_programmed mem (spec_chunks buf p k) (pr, dev)"
  shows "map dev' [p..<p + k] = map mem [buf..<buf + k]"
proof -
  have "dev' = snd (chunks_programmed mem (spec_chunks buf p k) (pr, dev))"
    using assms by (metis snd_conv)
  then have "map (\<lambda>i. dev' (p + i)) [0..<k] = map (\<lambda>i. mem (buf + i)) [0..<k]"
    by (simp add: chunks_programmed_cells)
  then show ?thesis
    unfolding map_window [of dev' p k] map_window [of mem buf k] .
qed

section \<open>Clamping at the end of the device\<close>

text \<open>
  Claim C7. A read or a write of \<open>len\<close> bytes at a position \<open>pos\<close> with 0 \<le> pos \<le> C, on a
  machine at rest and with a buffer that passes the check, returns, and
  k = min (len, C - pos) bytes are transferred. A read loads exactly k values from the
  read-data port, the device bytes at pos, ..., pos + k - 1 in this order, stores nothing
  to the write-data port, stores the loaded bytes into user memory (each chunk from the
  start of the buffer on) and leaves the cells as they are. A write stores exactly k
  values to the write-data port, the user bytes at buffer, ..., buffer + k - 1 in this
  order, loads nothing from the read-data port, leaves user memory as it is, and
  afterwards the cells at pos, ..., pos + k - 1 hold these bytes. In both cases the page
  operations called were asked for k bytes in all, the return value is k and the position
  afterwards is pos + k; so k \<le> len and pos + k \<le> C.
\<close>

theorem transfer_is_clamped:
  assumes "settled m" and "access_ok buffer len"
    and "0 \<le> sint pos" and "sint pos \<le> int capacity"
  defines "p \<equiv> nat (sint pos)"
  defines "k \<equiv> min (unat len) (capacity - nat (sint pos))"
  shows "(\<exists>m'. eeprom_read access_ok buffer len pos m = Some (of_nat k, pos + of_nat k, m')
            \<and> transferred (drop (length (calls m)) (calls m')) = k
            \<and> length (rdata_loads (drop (length (bus m)) (bus m'))) = k
            \<and> rdata_loads (drop (length (bus m)) (bus m'))
                = map (\<lambda>a. ucast (cells m a)) [p..<p + k]
            \<and> wdata_stores (drop (length (bus m)) (bus m')) = []
            \<and> user m' = chunks_stored_at buffer (cells m) (spec_chunks buffer p k) (user m)
            \<and> cells m' = cells m)
       \<and> (\<exists>m'. eeprom_write access_ok buffer len pos m = Some (of_nat k, pos + of_nat k, m')
            \<and> transferred (drop (length (calls m)) (calls m')) = k
            \<and> length (wdata_stores (drop (length (bus m)) (bus m'))) = k
            \<and> wdata_stores (drop (length (bus m)) (bus m'))
                = map (\<lambda>a. ucast (user m a)) [buffer..<buffer + k]
            \<and> rdata_loads (drop (length (bus m)) (bus m')) = []
            \<and> map (cells m') [p..<p + k] = map (user m) [buffer..<buffer + k]
            \<and> user m' = user m)
       \<and> sint (of_nat k :: c_int) = int k
       \<and> sint (pos + of_nat k) = sint pos + int k
       \<and> k \<le> unat len \<and> nat (sint pos) + k \<le> capacity"
proof -
  have cap: "capacity = 4032"
    by (simp add: capacity_def EEPROM_PAGE_SIZE_def EEPROM_PAGE_NUM_def)
  have u: "unat pos = p" "unat pos \<le> 4032"
    using loff_t_in_device [of pos] assms(3,4) by (simp_all add: cap p_def)
  have k: "k = min (unat len) (4032 - unat pos)"
    by (simp add: k_def cap u(1) p_def)
  have kb: "k \<le> 4032 - unat pos"
    by (simp add: k)
  obtain m1 where m1: "eeprom_read access_ok buffer len pos m = Some (of_nat k, pos + of_nat k, m1)"
    "calls m1 = calls m @ map (same_buffer buffer) (spec_read_calls buffer (unat pos) k)"
    using eeprom_read_returns [of m access_ok buffer len pos] assms(1,2) u(2)
    unfolding k by blast
  have "\<exists>m' es. eeprom_read access_ok buffer len pos m = Some (of_nat k, pos + of_nat k, m')
           \<and> bus m' = bus m @ es \<and> cells m' = cells m
           \<and> user m' = chunks_stored_at buffer (cells m) (spec_chunks buffer (unat pos) k)
                          (user m)
           \<and> rdata_loads es = map (\<lambda>a. ucast (cells m a)) [unat pos..<unat pos + k]
           \<and> wdata_stores es = []
           \<and> control_stores es = spec_read_control (spec_chunks buffer (unat pos) k)"
    unfolding k using assms(1,2) u(2) by (rule eeprom_read_traffic)
  then obtain es1 where t1: "bus m1 = bus m @ es1" "cells m1 = cells m"
    "user m1 = chunks_stored_at buffer (cells m) (spec_chunks buffer p k) (user m)"
    "rdata_loads es1 = map (\<lambda>a. ucast (cells m a)) [p..<p + k]"
    "wdata_stores es1 = []"
    unfolding m1(1) u(1) by auto
  obtain m2 where m2: "eeprom_write access_ok buffer len pos m = Some (of_nat k, pos + of_nat k, m2)"
    "user m2 = user m"
    "calls m2 = calls m @ spec_write_calls (user m) buffer (unat pos) k"
    using eeprom_write_returns [of m access_ok buffer len pos] assms(1,2) u(2)
    unfolding k by blast
  have "\<exists>m' es. eeprom_write access_ok buffer len pos m = Some (of_nat k, pos + of_nat k, m')
           \<and> bus m' = bus m @ es
           \<and> (page_register m', cells m')
               = chunks_programmed (user m) (spec_chunks buffer (unat pos) k)
                   (page_register m, cells m)
           \<and> rdata_loads es = []
           \<and> wdata_stores es = map (\<lambda>a. ucast (user m a)) [buffer..<buffer + k]
           \<and> control_stores es = spec_write_control (spec_chunks buffer (unat pos) k)"
    unfolding k using assms(1,2) u(2) by (rule eeprom_write_traffic)
  then obtain es2 where t2: "bus m2 = bus m @ es2"
    "(page_register m2, cells m2)
       = chunks_programmed (user m) (spec_chunks buffer p k) (page_register m, cells m)"
    "rdata_loads es2 = []"
    "wdata_stores es2 = map (\<lambda>a. ucast (user m a)) [buffer..<buffer + k]"
    unfolding m2(1) u(1) by auto
  have rd: "\<exists>m'. eeprom_read access_ok buffer len pos m = Some (of_nat k, pos + of_nat k, m')
            \<and> transferred (drop (length (calls m)) (calls m')) = k
            \<and> length (rdata_loads (drop (length (bus m)) (bus m'))) = k
            \<and> rdata_loads (drop (length (bus m)) (bus m'))
                = map (\<lambda>a. ucast (cells m a)) [p..<p + k]
            \<and> wdata_stores (drop (length (bus m)) (bus m')) = []
            \<and> user m' = chunks_stored_at buffer (cells m) (spec_chunks buffer p k) (user m)
            \<and> cells m' = cells m"
    using m1(1) t1(2,3) by (simp add: m1(2) t1(1,4,5) transferred_read_calls)
  have wr: "\<exists>m'. eeprom_write access_ok buffer len pos m = Some (of_nat k, pos + of_nat k, m')
            \<and> transferred (drop (length (calls m)) (calls m')) = k
            \<and> length (wdata_stores (drop (length (bus m)) (bus m'))) = k
            \<and> wdata_stores (drop (length (bus m)) (bus m'))
                = map (\<lambda>a. ucast (user m a)) [buffer..<buffer + k]
            \<and> rdata_loads (drop (length (bus m)) (bus m')) = []
            \<and> map (cells m') [p..<p + k] = map (user m) [buffer..<buffer + k]
            \<and> user m' = user m"
    using m2(1,2) written_cells [OF t2(2)]
    by (simp add: m2(3) t2(1,3,4) transferred_write_calls)
  have "sint (of_nat k :: c_int) = int k"
    using kb by (intro sint_count) simp
  moreover have "sint (pos + of_nat k) = sint pos + int k"
    using kb u assms(3) unfolding p_def by (intro sint_advance) simp_all
  moreover have "k \<le> unat len \<and> nat (sint pos) + k \<le> capacity"
    using kb u unfolding p_def by (simp add: k cap)
  ultimately show ?thesis
    using rd wr by blast
qed

text \<open>
  Sixteen bytes requested at position 4028: four are transferred, up to 4032. The read
  loads the device bytes 188, ..., 191 (the cells hold their address modulo 256) and
  stores them at the start of the buffer; the write stores the first four user bytes, and
  they are in the cells afterwards.
\<close>

theorem transfer_is_clamped_witness:
  "settled (bench 1 [65, 66, 67, 68, 69, 70, 71, 72]) \<and> every_buffer 0 16
   \<and> 0 \<le> sint (4028 :: loff_t) \<and> sint (4028 :: loff_t) \<le> int capacity
   \<and> (\<exists>m'. eeprom_read every_buffer 0 16 4028 (bench 1 [65, 66, 67, 68, 69, 70, 71, 72])
               = Some (4, 4032, m')
         \<and> transferred (calls m') = 4
         \<and> rdata_loads (bus m') = [188, 189, 190, 191]
         \<and> wdata_stores (bus m') = []
         \<and> user_window m' 0 8 = [188, 189, 190, 191, 69, 70, 71, 72])
   \<and> (\<exists>m'. eeprom_write every_buffer 0 16 4028 (bench 1 [65, 66, 67, 68, 69, 70, 71, 72])
               = Some (4, 4032, m')
         \<and> transferred (calls m') = 4
         \<and> wdata_stores (bus m') = [65, 66, 67, 68]
         \<and> rdata_loads (bus m') = []
         \<and> map (cells m') [4028..<4032] = [65, 66, 67, 68])"
  using transfer_is_clamped [of "bench 1 [65, 66, 67, 68, 69, 70, 71, 72]" every_buffer 0 16 4028]
  by (auto simp: settled_def bench_def every_buffer_def capacity_def EEPROM_PAGE_SIZE_def
      EEPROM_PAGE_NUM_def spec_chunks.simps user_bytes_def upt_rec cell_pattern_def
      user_window_def)

section \<open>The page operations are called within their preconditions\<close>

text \<open>
  Claim C10. A read or a write at a position \<open>pos\<close> with 0 \<le> pos \<le> C, on a machine at rest,
  returns, and every page operation it has called was given a page below 63, a page offset
  below 64 and a length that ends within the page.
\<close>

theorem page_engine_calls_within_preconditions:
  assumes "settled m" and "0 \<le> sint pos" and "sint pos \<le> int capacity"
  shows "(\<exists>r pos' m'. eeprom_read access_ok buffer len pos m = Some (r, pos', m')
            \<and> list_all pe_precondition (drop (length (calls m)) (calls m')))
       \<and> (\<exists>r pos' m'. eeprom_write access_ok buffer len pos m = Some (r, pos', m')
            \<and> list_all pe_precondition (drop (length (calls m)) (calls m')))"
proof (cases "access_ok buffer len")
  case False
  then show ?thesis
    by (simp add: eeprom_read_rejects eeprom_write_rejects)
next
  case True
  have cap: "capacity = 4032"
    by (simp add: capacity_def EEPROM_PAGE_SIZE_def EEPROM_PAGE_NUM_def)
  have u: "unat pos \<le> 4032"
    using loff_t_in_device [of pos] assms(2,3) by (simp add: cap)
  define k where "k = min (unat len) (4032 - unat pos)"
  have kb: "unat pos + k \<le> 4032"
    using u by (simp add: k_def)
  obtain m1 where m1: "eeprom_read access_ok buffer len pos m = Some (of_nat k, pos + of_nat k, m1)"
    "calls m1 = calls m @ map (same_buffer buffer) (spec_read_calls buffer (unat pos) k)"
    using eeprom_read_returns [of m access_ok buffer len pos] assms(1) True u
    unfolding k_def by blast
  obtain m2 where m2: "eeprom_write access_ok buffer len pos m = Some (of_nat k, pos + of_nat k, m2)"
    "calls m2 = calls m @ spec_write_calls (user m) buffer (unat pos) k"
    using eeprom_write_returns [of m access_ok buffer len pos] assms(1) True u
    unfolding k_def by blast
  show ?thesis
    using m1 m2 precondition_read_calls [OF kb, of buffer buffer]
      precondition_write_calls [OF kb, of "user m" buffer]
    by simp
qed

text \<open>A hundred bytes requested at position 4000.\<close>

theorem page_engine_calls_within_preconditions_witness:
  "settled (bench 1 []) \<and> 0 \<le> sint (4000 :: loff_t) \<and> sint (4000 :: loff_t) \<le> int capacity
   \<and> (\<exists>r pos' m'. eeprom_read every_buffer 0 100 4000 (bench 1 []) = Some (r, pos', m')
          \<and> list_all pe_precondition (drop (length (calls (bench 1 []))) (calls m')))
   \<and> (\<exists>r pos' m'. eeprom_write every_buffer 0 100 4000 (bench 1 []) = Some (r, pos', m')
          \<and> list_all pe_precondition (drop (length (calls (bench 1 []))) (calls m')))"
  using page_engine_calls_within_preconditions [of "bench 1 []" 4000 every_buffer 0 100]
  by (simp add: settled_def bench_def capacity_def EEPROM_PAGE_SIZE_def EEPROM_PAGE_NUM_def)

section \<open>The write loop against the specification\<close>

text \<open>
  Claim C8. A write of \<open>len\<close> > 0 bytes at \<open>pos\<close> with 0 \<le> pos < C, on a machine at rest and
  with a buffer that passes the check, is clamped to k = min (len, C - pos) > 0 bytes and
  does what section 4.4 asks: for each chunk (page pos / 64, page offset pos mod 64,
  length min (remaining, 64 - page offset)) the page-register write of the chunk's bytes
  from the advancing buffer, then the erase/program of the page; it returns k and advances
  the position by k. On the register block, the stores to the command and address
  registers are, chunk by chunk, the 8-bit write command, the address of the page offset,
  the address of the page and the erase/program command; so the erase/program commands go
  to the pages pos / 64 up to (pos + k - 1) / 64, each once, in increasing order. The
  bytes stored to the write-data port are the k bytes of the buffer in order, and
  afterwards the cells at pos, ..., pos + k - 1 hold them.
\<close>

theorem write_is_chunked_by_page:
  assumes "settled m" and "access_ok buffer len" and "0 < unat len"
    and "0 \<le> sint pos" and "sint pos < int capacity"
  defines "p \<equiv> nat (sint pos)"
  defines "k \<equiv> min (unat len) (capacity - nat (sint pos))"
  shows "\<exists>m'. eeprom_write access_ok buffer len pos m = Some (of_nat k, pos + of_nat k, m')
           \<and> 0 < k
           \<and> calls m' = calls m @ spec_write_calls (user m) buffer p k
           \<and> programmed_pages (drop (length (calls m)) (calls m'))
               = map of_nat [p div 64..<Suc ((p + k - 1) div 64)]
           \<and> control_stores (drop (length (bus m)) (bus m'))
               = spec_write_control (spec_chunks buffer p k)
           \<and> erase_programs a (drop (length (bus m)) (bus m'))
               = map (\<lambda>page. push_bit 6 (of_nat page)) [p div 64..<Suc ((p + k - 1) div 64)]
           \<and> wdata_stores (drop (length (bus m)) (bus m'))
               = map (\<lambda>a. ucast (user m a)) [buffer..<buffer + k]
           \<and> map (cells m') [p..<p + k] = map (user m) [buffer..<buffer + k]"
proof -
  have cap: "capacity = 4032"
    by (simp add: capacity_def EEPROM_PAGE_SIZE_def EEPROM_PAGE_NUM_def)
  have u: "unat pos = p" "unat pos \<le> 4032" "p < 4032"
    using loff_t_in_device [of pos] assms(4,5) by (simp_all add: cap p_def)
  have k: "k = min (unat len) (4032 - unat pos)"
    by (simp add: k_def cap u(1) p_def)
  have kpos: "0 < k"
    using assms(3) u(3) by (simp add: k u(1))
  obtain m' where m': "eeprom_write access_ok buffer len pos m
                         = Some (of_nat k, pos + of_nat k, m')"
    "calls m' = calls m @ spec_write_calls (user m) buffer p k"
    using eeprom_write_returns [of m access_ok buffer len pos] assms(1,2) u(2)
    unfolding k u(1) by blast
  have "\<exists>m' es. eeprom_write access_ok buffer len pos m = Some (of_nat k, pos + of_nat k, m')
           \<and> bus m' = bus m @ es
           \<and> (page_register m', cells m')
               = chunks_programmed (user m) (spec_chunks buffer (unat pos) k)
                   (page_register m, cells m)
           \<and> rdata_loads es = []
           \<and> wdata_stores es = map (\<lambda>a. ucast (user m a)) [buffer..<buffer + k]
           \<and> control_stores es = spec_write_control (spec_chunks buffer (unat pos) k)"
    unfolding k using assms(1,2) u(2) by (rule eeprom_write_traffic)
  then obtain es where t: "bus m' = bus m @ es"
    "(page_register m', cells m')
       = chunks_programmed (user m) (spec_chunks buffer p k) (page_register m, cells m)"
    "wdata_stores es = map (\<lambda>a. ucast (user m a)) [buffer..<buffer + k]"
    "control_stores es = spec_write_control (spec_chunks buffer p k)"
    unfolding m'(1) u(1) by auto
  have "erase_programs a es = erase_programs a (control_stores es)"
    by (simp only: erase_programs_control)
  also have "\<dots> = map (\<lambda>page. push_bit 6 (of_nat page))
                    [p div 64..<Suc ((p + k - 1) div 64)]"
    unfolding t(4) erase_programs_write_control spec_chunks_pages [OF kpos] by (rule refl)
  finally have e: "erase_programs a es = map (\<lambda>page. push_bit 6 (of_nat page))
                    [p div 64..<Suc ((p + k - 1) div 64)]" .
  show ?thesis
    using m'(1) kpos written_cells [OF t(2)] e
    by (simp add: m'(2) t(1,3,4) programmed_pages_write_calls)
qed

text \<open>
  The eight bytes \<open>ABCDEFGH\<close> written at position 60: four to page 0 from offset 60, four
  to page 1 from offset 0, and two page programs, at the addresses 0 and 64. The same
  buffer written at position 4028 with sixteen bytes requested: four bytes to page 62 and
  one page program, at the address 3968.
\<close>

theorem write_is_chunked_by_page_witness:
  "settled (bench 1 [65, 66, 67, 68, 69, 70, 71, 72])
   \<and> every_buffer 0 8 \<and> 0 < unat (8 :: size_t)
   \<and> 0 \<le> sint (60 :: loff_t) \<and> sint (60 :: loff_t) < int capacity
   \<and> (\<exists>m'. eeprom_write every_buffer 0 8 60 (bench 1 [65, 66, 67, 68, 69, 70, 71, 72])
               = Some (8, 68, m')
         \<and> calls m' = [Call_WritePageRegister 60 [65, 66, 67, 68], Call_EraseProgramPage 0,
                        Call_WritePageRegister 0 [69, 70, 71, 72], Call_EraseProgramPage 1]
         \<and> programmed_pages (calls m') = [0, 1]
         \<and> control_stores (bus m')
             = [Store CMD 3, Store ADDR 60, Store ADDR 0, Store CMD 6,
                Store CMD 3, Store ADDR 0, Store ADDR 64, Store CMD 6]
         \<and> erase_programs 0 (bus m') = [0, 64]
         \<and> wdata_stores (bus m') = [65, 66, 67, 68, 69, 70, 71, 72]
         \<and> map (cells m') [60..<68] = [65, 66, 67, 68, 69, 70, 71, 72])
   \<and> every_buffer 0 16 \<and> 0 < unat (16 :: size_t)
   \<and> 0 \<le> sint (4028 :: loff_t) \<and> sint (4028 :: loff_t) < int capacity
   \<and> (\<exists>m'. eeprom_write every_buffer 0 16 4028 (bench 1 [65, 66, 67, 68, 69, 70, 71, 72])
               = Some (4, 4032, m')
         \<and> calls m' = [Call_WritePageRegister 60 [65, 66, 67, 68], Call_EraseProgramPage 62]
         \<and> programmed_pages (calls m') = [62]
         \<and> control_stores (bus m')
             = [Store CMD 3, Store ADDR 60, Store ADDR 3968, Store CMD 6]
         \<and> erase_programs 0 (bus m') = [3968]
         \<and> wdata_stores (bus m') = [65, 66, 67, 68]
         \<and> map (cells m') [4028..<4032] = [65, 66, 67, 68])"
  using write_is_chunked_by_page
          [of "bench 1 [65, 66, 67, 68, 69, 70, 71, 72]" every_buffer 0 8 60 0]
    write_is_chunked_by_page
          [of "bench 1 [65, 66, 67, 68, 69, 70, 71, 72]" every_buffer 0 16 4028 0]
  by (auto simp: settled_def bench_def every_buffer_def capacity_def EEPROM_PAGE_SIZE_def
      EEPROM_PAGE_NUM_def spec_write_calls_def spec_write_control_def spec_chunks.simps
      user_bytes_def upt_rec EEPROM_CMD_8BITS_WRITE_def EEPROM_CMD_ERASE_PRG_PAGE_def)

section \<open>Seeking\<close>

lemma sint_add64:
  fixes a b :: loff_t
  assumes "in_loff_t (sint a + sint b)"
  shows "sint (a + b) = sint a + sint b"
  using assms
  by (simp add: sint_word_ariths in_loff_t_def signed_take_bit_int_eq_self)

text \<open>
  Claim C6. For every seek, the new position is computed (in \<open>loff_t\<close>) as the offset for
  \<open>SEEK_SET\<close>, the position plus the offset for \<open>SEEK_CUR\<close> and 4032 plus the offset for
  \<open>SEEK_END\<close>; any other whence returns -22 (\<open>INVALID\<close>); a new position below 0 returns -22
  and leaves the position; otherwise the new position is stored and returned. Where the
  sums are in the range of \<open>loff_t\<close> this is the seek of the specification on the integers.
  A seek to k by \<open>SEEK_SET\<close> followed by a seek by 0 from the current position returns k,
  for every 0 \<le> k \<le> C.
\<close>

theorem eeprom_llseek_computes:
  "eeprom_llseek pos offset whence =
     (if whence = SEEK_SET \<or> whence = SEEK_CUR \<or> whence = SEEK_END
      then (let newpos = (if whence = SEEK_SET then offset
                          else if whence = SEEK_CUR then pos + offset
                          else 4032 + offset)
            in if sint newpos < 0 then (- 22, pos) else (newpos, newpos))
      else (- 22, pos))
   \<and> (in_loff_t (sint pos + sint offset) \<and> in_loff_t (4032 + sint offset)
        \<longrightarrow> (case eeprom_llseek pos offset whence of
               (ret, pos') \<Rightarrow> (sint ret, sint pos') = spec_seek (sint pos) (sint offset) whence))
   \<and> (0 \<le> sint k \<and> sint k \<le> int capacity
        \<longrightarrow> (case eeprom_llseek pos k SEEK_SET of
               (r1, p1) \<Rightarrow> r1 = k \<and> p1 = k \<and> eeprom_llseek p1 0 SEEK_CUR = (k, k)))"
proof (intro conjI impI)
  show "eeprom_llseek pos offset whence =
     (if whence = SEEK_SET \<or> whence = SEEK_CUR \<or> whence = SEEK_END
      then (let newpos = (if whence = SEEK_SET then offset
                          else if whence = SEEK_CUR then pos + offset
                          else 4032 + offset)
            in if sint newpos < 0 then (- 22, pos) else (newpos, newpos))
      else (- 22, pos))"
    by (simp add: eeprom_llseek_def SEEK_SET_def SEEK_CUR_def SEEK_END_def EINVAL_def
        EEPROM_PAGE_SIZE_def EEPROM_PAGE_NUM_def word_sless_alt Let_def)
next
  assume a: "in_loff_t (sint pos + sint offset) \<and> in_loff_t (4032 + sint offset)"
  then have s: "sint (pos + offset) = sint pos + sint offset"
    "sint (4032 + offset) = 4032 + sint offset"
    using sint_add64 [of pos offset] sint_add64 [of 4032 offset] by simp_all
  show "case eeprom_llseek pos offset whence of
          (ret, pos') \<Rightarrow> (sint ret, sint pos') = spec_seek (sint pos) (sint offset) whence"
    using s
    by (simp add: eeprom_llseek_def spec_seek_def capacity_def EEPROM_PAGE_SIZE_def
        EEPROM_PAGE_NUM_def EINVAL_def word_sless_alt)
next
  assume "0 \<le> sint k \<and> sint k \<le> int capacity"
  then show "case eeprom_llseek pos k SEEK_SET of
          (r1, p1) \<Rightarrow> r1 = k \<and> p1 = k \<and> eeprom_llseek p1 0 SEEK_CUR = (k, k)"
    by (simp add: eeprom_llseek_def SEEK_SET_def SEEK_CUR_def word_sless_alt)
qed

text \<open>From position 10: three back gives 7; to 100 and asking again gives 100.\<close>

theorem eeprom_llseek_computes_witness:
  "in_loff_t (sint (10 :: loff_t) + sint (- 3 :: loff_t)) \<and> in_loff_t (4032 + sint (- 3 :: loff_t))
   \<and> 0 \<le> sint (100 :: loff_t) \<and> sint (100 :: loff_t) \<le> int capacity
   \<and> eeprom_llseek 10 (- 3) SEEK_CUR = (7, 7)
   \<and> spec_seek 10 (- 3) SEEK_CUR = (7, 7)
   \<and> eeprom_llseek 10 100 SEEK_SET = (100, 100)
   \<and> eeprom_llseek 100 0 SEEK_CUR = (100, 100)"
  using eeprom_llseek_computes [of 10 "- 3" SEEK_CUR 100]
  by (simp add: in_loff_t_def capacity_def EEPROM_PAGE_SIZE_def EEPROM_PAGE_NUM_def
      SEEK_SET_def SEEK_CUR_def SEEK_END_def spec_seek_def eeprom_llseek_def word_sless_alt)


section \<open>Sequences of requests return\<close>

lemma eeprom_read_loop_total:
  assumes "settled m"
  shows "\<exists>pos' m'. eeprom_read_loop buffer to_read offset m = Some (pos', m') \<and> settled m'"
  using assms
proof (induction "unat to_read" arbitrary: to_read offset m rule: less_induct)
  case less
  show ?case
  proof (cases "to_read = 0")
    case True
    with less.prems show ?thesis
      by (subst eeprom_read_loop.simps) simp
  next
    case False
    then have pos: "0 < to_read"
      by (simp add: word_neq_0_conv)
    then have npos: "0 < unat to_read"
      by (simp add: word_less_nat_alt)
    define po where "po = (ucast (offset AND (of_nat EEPROM_PAGE_SIZE - 1)) :: size_t)"
    define page where "page = (ucast (signed_drop_bit 6 offset) :: u16)"
    define rb where "rb = (if to_read > of_nat EEPROM_PAGE_SIZE - po
                           then of_nat EEPROM_PAGE_SIZE - po else to_read)"
    have upo: "unat po < 64"
      by (simp add: po_def unat_page_offset)
    have urb: "unat rb = min (unat to_read) (64 - unat po)"
      using unat_chunk [OF upo pos] by (simp add: rb_def)
    have rest: "unat (to_read - rb) < unat to_read"
      using urb upo npos by (subst unat_sub) (simp_all add: word_le_nat_alt)
    obtain m1 where m1: "EEPROM_Read po (ucast page) buffer rb m = Some (rb, m1)" "settled m1"
      using EEPROM_Read_returns [OF less.prems, of po "ucast page" buffer rb] by blast
    have step: "eeprom_read_loop buffer to_read offset m =
                  (case EEPROM_Read po (ucast page) buffer rb m of
                     None \<Rightarrow> None
                   | Some (n, m1) \<Rightarrow>
                       eeprom_read_loop buffer (to_read - rb) (offset + ucast rb) m1)"
      unfolding po_def page_def rb_def using pos
      by (subst eeprom_read_loop.simps) (simp add: Let_def)
    show ?thesis
      using less.hyps [OF rest m1(2), of "offset + ucast rb"]
      by (simp add: step m1(1))
  qed
qed

lemma eeprom_write_loop_total:
  assumes "settled m"
  shows "\<exists>pos' m'. eeprom_write_loop buffer to_write offset m = Some (pos', m') \<and> settled m'"
  using assms
proof (induction "unat to_write" arbitrary: to_write offset m buffer rule: less_induct)
  case less
  show ?case
  proof (cases "to_write = 0")
    case True
    with less.prems show ?thesis
      by (subst eeprom_write_loop.simps) simp
  next
    case False
    then have pos: "0 < to_write"
      by (simp add: word_neq_0_conv)
    then have npos: "0 < unat to_write"
      by (simp add: word_less_nat_alt)
    define po where "po = (ucast (offset AND (of_nat EEPROM_PAGE_SIZE - 1)) :: size_t)"
    define page where "page = (ucast (signed_drop_bit 6 offset) :: u16)"
    define wb where "wb = (if to_write > of_nat EEPROM_PAGE_SIZE - po
                           then of_nat EEPROM_PAGE_SIZE - po else to_write)"
    have upo: "unat po < 64"
      by (simp add: po_def unat_page_offset)
    have uwb: "unat wb = min (unat to_write) (64 - unat po)"
      using unat_chunk [OF upo pos] by (simp add: wb_def)
    have rest: "unat (to_write - wb) < unat to_write"
      using uwb upo npos by (subst unat_sub) (simp_all add: word_le_nat_alt)
    obtain m1 where m1: "EEPROM_WritePageRegister (ucast po) buffer wb m = Some (wb, m1)"
      "settled m1"
      using EEPROM_WritePageRegister_returns [OF less.prems, of "ucast po" buffer wb] by blast
    obtain m2 where m2: "EEPROM_EraseProgramPage page m1 = Some m2" "settled m2"
      using EEPROM_EraseProgramPage_returns [OF m1(2), of page] by blast
    have step: "eeprom_write_loop buffer to_write offset m =
                  (case EEPROM_WritePageRegister (ucast po) buffer wb m of
                     None \<Rightarrow> None
                   | Some (n, m1) \<Rightarrow>
                       (case EEPROM_EraseProgramPage page m1 of
                          None \<Rightarrow> None
                        | Some m2 \<Rightarrow>
                            eeprom_write_loop (buffer + unat wb) (to_write - wb)
                              (offset + ucast wb) m2))"
      unfolding po_def page_def wb_def using pos
      by (subst eeprom_write_loop.simps) (simp add: Let_def)
    show ?thesis
      using less.hyps [OF rest m2(2), of "buffer + unat wb" "offset + ucast wb"]
      by (simp add: step m1(1) m2(1))
  qed
qed

lemma eeprom_read_total:
  assumes "settled m"
  shows "\<exists>r pos' m'. eeprom_read access_ok buffer len offset m = Some (r, pos', m') \<and> settled m'"
proof -
  obtain pos' m' where "eeprom_read_loop buffer
      (if len > ucast (of_nat (EEPROM_PAGE_SIZE * EEPROM_PAGE_NUM) - offset)
       then ucast (of_nat (EEPROM_PAGE_SIZE * EEPROM_PAGE_NUM) - offset) else len) offset m
      = Some (pos', m')" "settled m'"
    using eeprom_read_loop_total [OF assms] by blast
  with assms show ?thesis
    unfolding eeprom_read_def Let_def by simp
qed

lemma eeprom_write_total:
  assumes "settled m"
  shows "\<exists>r pos' m'. eeprom_write access_ok buffer len offset m = Some (r, pos', m') \<and> settled m'"
proof -
  obtain pos' m' where "eeprom_write_loop buffer
      (if len > ucast (of_nat (EEPROM_PAGE_SIZE * EEPROM_PAGE_NUM) - offset)
       then ucast (of_nat (EEPROM_PAGE_SIZE * EEPROM_PAGE_NUM) - offset) else len) offset m
      = Some (pos', m')" "settled m'"
    using eeprom_write_loop_total [OF assms] by blast
  with assms show ?thesis
    unfolding eeprom_write_def Let_def by simp
qed

lemma perform_total:
  assumes "settled m"
  shows "\<exists>ret pos' m'. perform ok r pos m = Some (ret, pos', m') \<and> settled m'"
proof (cases r)
  case Open
  with assms show ?thesis
    by (simp add: eeprom_open_def Let_def settled_def)
next
  case Release
  with assms show ?thesis
    by (simp add: eeprom_release_def settled_def)
next
  case (Seek offset whence)
  with assms show ?thesis
    by (cases "eeprom_llseek pos offset whence") simp
next
  case (Read buffer len)
  then show ?thesis
    using eeprom_read_total [OF assms, of ok buffer len pos] by auto
next
  case (Write buffer len)
  then show ?thesis
    using eeprom_write_total [OF assms, of ok buffer len pos] by auto
qed

lemma session_total:
  assumes "settled m"
  shows "\<exists>out m'. session ok rs pos m = Some (out, m') \<and> settled m'"
  using assms
proof (induction rs arbitrary: pos m)
  case Nil
  then show ?case by simp
next
  case (Cons r rs)
  obtain ret pos' m1 where p: "perform ok r pos m = Some (ret, pos', m1)" "settled m1"
    using perform_total [OF Cons.prems] by blast
  obtain out m' where "session ok rs pos' m1 = Some (out, m')" "settled m'"
    using Cons.IH [OF p(2)] by blast
  with p show ?case by simp
qed

section \<open>The position within the device\<close>

lemma capacity_4032: "capacity = 4032"
  by (simp add: capacity_def EEPROM_PAGE_SIZE_def EEPROM_PAGE_NUM_def)

lemma eeprom_read_position:
  assumes "settled m" and "0 \<le> sint pos" and "sint pos \<le> 4032"
    and "eeprom_read ok buffer len pos m = Some (r, pos', m')"
  shows "0 \<le> sint pos' \<and> sint pos' \<le> 4032"
proof (cases "ok buffer len")
  case False
  with assms show ?thesis
    by (simp add: eeprom_read_rejects)
next
  case True
  have u: "unat pos = nat (sint pos)" "unat pos \<le> 4032"
    using loff_t_in_device [OF assms(2,3)] by simp_all
  define k where "k = min (unat len) (4032 - unat pos)"
  have "pos' = pos + of_nat k"
    using eeprom_read_returns [of m ok buffer len pos] assms(1,4) True u(2)
    unfolding k_def by auto
  moreover have "k \<le> 4032 - unat pos"
    by (simp add: k_def)
  then have kb: "sint pos + int k \<le> 4032"
    using u assms(2) by linarith
  then have "sint (pos + of_nat k) = sint pos + int k"
    using assms(2) by (intro sint_advance)
  ultimately show ?thesis
    using assms(2) kb by simp
qed

lemma eeprom_write_position:
  assumes "settled m" and "0 \<le> sint pos" and "sint pos \<le> 4032"
    and "eeprom_write ok buffer len pos m = Some (r, pos', m')"
  shows "0 \<le> sint pos' \<and> sint pos' \<le> 4032"
proof (cases "ok buffer len")
  case False
  with assms show ?thesis
    by (simp add: eeprom_write_rejects)
next
  case True
  have u: "unat pos = nat (sint pos)" "unat pos \<le> 4032"
    using loff_t_in_device [OF assms(2,3)] by simp_all
  define k where "k = min (unat len) (4032 - unat pos)"
  have "pos' = pos + of_nat k"
    using eeprom_write_returns [of m ok buffer len pos] assms(1,4) True u(2)
    unfolding k_def by auto
  moreover have "k \<le> 4032 - unat pos"
    by (simp add: k_def)
  then have kb: "sint pos + int k \<le> 4032"
    using u assms(2) by linarith
  then have "sint (pos + of_nat k) = sint pos + int k"
    using assms(2) by (intro sint_advance)
  ultimately show ?thesis
    using assms(2) kb by simp
qed

lemma perform_position:
  assumes "settled m" and "0 \<le> sint pos" and "sint pos \<le> 4032"
    and "perform ok r pos m = Some (ret, pos', m')"
    and "\<not> is_seek r \<or> ret \<le> 4032"
  shows "0 \<le> sint pos' \<and> sint pos' \<le> 4032"
proof (cases r)
  case Open
  with assms show ?thesis
    by (auto simp: eeprom_open_def Let_def split: if_splits)
next
  case Release
  with assms show ?thesis
    by (auto simp: eeprom_release_def)
next
  case (Seek offset whence)
  with assms show ?thesis
    by (auto simp: eeprom_llseek_def word_sless_alt split: if_splits option.splits)
next
  case (Read buffer len)
  with assms(4) obtain c where "eeprom_read ok buffer len pos m = Some (c, pos', m')"
    by (auto split: option.splits)
  then show ?thesis
    using eeprom_read_position [OF assms(1,2,3)] by blast
next
  case (Write buffer len)
  with assms(4) obtain c where "eeprom_write ok buffer len pos m = Some (c, pos', m')"
    by (auto split: option.splits)
  then show ?thesis
    using eeprom_write_position [OF assms(1,2,3)] by blast
qed

lemma session_positions:
  assumes "settled m" and "0 \<le> sint pos" and "sint pos \<le> 4032"
    and "session ok rs pos m = Some (out, m')"
    and "seeks_within_capacity rs out"
  shows "positions_within_capacity out"
  using assms
proof (induction rs arbitrary: pos m out)
  case Nil
  then show ?case
    by (simp add: positions_within_capacity_def)
next
  case (Cons r rs)
  obtain ret pos1 m1 where p: "perform ok r pos m = Some (ret, pos1, m1)" "settled m1"
    using perform_total [OF Cons.prems(1)] by blast
  with Cons.prems(4) obtain out1 where o: "session ok rs pos1 m1 = Some (out1, m')"
    "out = (ret, pos1) # out1"
    by (auto split: option.splits)
  have s: "\<not> is_seek r \<or> ret \<le> 4032" "seeks_within_capacity rs out1"
    using Cons.prems(5) by (simp_all add: o(2) seeks_within_capacity_def capacity_4032)
  have q: "0 \<le> sint pos1 \<and> sint pos1 \<le> 4032"
    using perform_position [OF Cons.prems(1,2,3) p(1) s(1)] .
  then have "positions_within_capacity out1"
    using Cons.IH [OF p(2) _ _ o(1) s(2)] by simp
  with q show ?case
    by (simp add: o(2) positions_within_capacity_def capacity_4032)
qed

text \<open>
  Claim C4, as amended. From a fresh handle at position 0 on a machine at rest, every
  sequence of open, release, seek, read and write requests returns, and if every seek of
  the sequence returned at most C, the position is in [0, C] after every request. (The
  seek rejects only negative positions: it is the one request that can leave the interval.)
\<close>

theorem position_stays_within_capacity:
  assumes "settled m"
  shows "\<exists>out m'. session ok rs 0 m = Some (out, m')
           \<and> (seeks_within_capacity rs out \<longrightarrow> positions_within_capacity out)"
proof -
  obtain out m' where s: "session ok rs 0 m = Some (out, m')"
    using session_total [OF assms] by blast
  have "seeks_within_capacity rs out \<longrightarrow> positions_within_capacity out"
    using session_positions [OF assms _ _ s] by simp
  with s show ?thesis by blast
qed

text \<open>
  Seek to 4028, write 16 bytes (4 are written), ask for the position (4032), read 16 bytes
  (none is read).
\<close>

lemma session_example:
  "map_option fst (session every_buffer
      [Seek 4028 SEEK_SET, Write 0 16, Seek 0 SEEK_CUR, Read 0 16]
      0 (bench 0 []))
   = Some [(4028, 4028), (4, 4032), (4032, 4032), (0, 4032)]"
  by code_simp

theorem position_stays_within_capacity_witness:
  "settled (bench 0 [])
   \<and> map_option fst (session every_buffer
        [Seek 4028 SEEK_SET, Write 0 16, Seek 0 SEEK_CUR, Read 0 16]
        0 (bench 0 []))
      = Some [(4028, 4028), (4, 4032), (4032, 4032), (0, 4032)]
   \<and> seeks_within_capacity
        [Seek 4028 SEEK_SET, Write 0 16, Seek 0 SEEK_CUR, Read 0 16]
        [(4028, 4028), (4, 4032), (4032, 4032), (0, 4032)]
   \<and> positions_within_capacity
        [(4028, 4028), (4, 4032), (4032, 4032), (0, 4032)]"
proof -
  let ?rs = "[Seek 4028 SEEK_SET, Write 0 16, Seek 0 SEEK_CUR, Read 0 16]"
  let ?out = "[(4028, 4028), (4, 4032), (4032, 4032), (0, 4032)]
                :: (int \<times> loff_t) list"
  have a: "settled (bench 0 [])"
    by (simp add: settled_def bench_def)
  have b: "seeks_within_capacity ?rs ?out"
    by (simp add: seeks_within_capacity_def capacity_4032)
  obtain out m' where s: "session every_buffer ?rs 0 (bench 0 []) = Some (out, m')"
    "seeks_within_capacity ?rs out \<longrightarrow> positions_within_capacity out"
    using position_stays_within_capacity [OF a, of every_buffer ?rs] by blast
  have "out = ?out"
    using session_example s(1) by simp
  with s(2) b have "positions_within_capacity ?out"
    by simp
  with a b session_example show ?thesis
    by simp
qed

text \<open>
  Claim C4 as stated fails: from a fresh handle a seek to 5000 succeeds and leaves the
  position at 5000, beyond C = 4032.
\<close>

theorem seek_beyond_capacity_counterexample:
  "map_option fst (session every_buffer [Seek 5000 SEEK_SET] 0 (bench 0 []))
     = Some [(5000, 5000)]
   \<and> \<not> positions_within_capacity [(5000, 5000)]"
  by (simp add: eeprom_llseek_def SEEK_SET_def word_sless_alt positions_within_capacity_def
      capacity_4032)


section \<open>Reading across a page boundary\<close>

text \<open>
  Claim C1 fails on the code. The device holds the bytes 60, 61, ..., 67 at the positions
  60 to 67. A read of 8 bytes at position 60 into the buffer at address 0 returns 8 and
  moves the position to 68, but the buffer then holds 64, 65, 66, 67 followed by its old
  contents: \<open>eeprom_read\<close> hands every chunk the start of the buffer, so the chunk of the
  second page lands on top of the chunk of the first. A read that stays within one page
  delivers the device bytes in order.
\<close>

theorem read_across_pages_overwrites_buffer:
  "read_back (eeprom_read every_buffer 0 8 60 (bench 0 [])) 0 8
     = Some (8, 68, [64, 65, 66, 67, 0, 0, 0, 0])
   \<and> called (eeprom_read every_buffer 0 8 60 (bench 0 []))
     = Some (8, 68, [Call_Read 60 0 0 4, Call_Read 0 1 0 4])
   \<and> spec_read_calls 0 60 8 = [Call_Read 60 0 0 4, Call_Read 0 1 4 4]
   \<and> map (cells (bench 0 [])) [60 ..< 68] = [60, 61, 62, 63, 64, 65, 66, 67]
   \<and> read_back (eeprom_read every_buffer 0 4 60 (bench 0 [])) 0 8
     = Some (4, 64, [60, 61, 62, 63, 0, 0, 0, 0])"
  by code_simp

section \<open>Requests beyond the end of the device\<close>

text \<open>
  Claim C2 fails on the code for positions strictly beyond C. At position 4033 the
  remaining length 4032 - 4033 is stored in the unsigned \<open>size_t\<close> and becomes 4294967295, so
  nothing is clamped: a read of one byte calls the page engine for page 63, returns 1 and
  moves the position to 4034, and so does a write, which programs page 63. At position C
  itself both return 0, call nothing and leave the position.
\<close>

theorem transfer_beyond_capacity_is_not_clamped:
  "called (eeprom_read every_buffer 0 1 4033 (bench 0 [])) = Some (1, 4034, [Call_Read 1 63 0 1])
   \<and> called (eeprom_write every_buffer 0 1 4033 (bench 0 []))
     = Some (1, 4034, [Call_WritePageRegister 1 [0], Call_EraseProgramPage 63])
   \<and> (ucast (of_nat (EEPROM_PAGE_SIZE * EEPROM_PAGE_NUM) - (4033 :: loff_t)) :: size_t)
     = 4294967295
   \<and> called (eeprom_read every_buffer 0 16 4032 (bench 0 [])) = Some (0, 4032, [])
   \<and> called (eeprom_write every_buffer 0 16 4032 (bench 0 [])) = Some (0, 4032, [])"
  by code_simp

section \<open>The status bit cleared before a page program\<close>

text \<open>
  Claim C3 fails on the code. The first store of \<open>EEPROM_EraseProgramPage\<close> writes the
  command code 6 to the status-clear register, which clears the status bits 1 and 2 and
  not bit 28 (\<open>END_OF_PROG\<close> is 268435456). On a machine whose status still shows
  \<open>END_OF_PROG\<close> the wait that follows the command therefore returns at its first poll, while
  the program it started is still in flight (one poll to go, \<open>END_OF_PROG\<close> pending).
\<close>

theorem erase_program_clears_command_bits:
  "map_option bus (EEPROM_EraseProgramPage 0 (bench 2 []))
     = Some [Store INTSTATCLR 6, Store ADDR 0, Store CMD 6, Load INTSTAT 0, Load INTSTAT 0,
             Load INTSTAT 268435456, Store INTSTATCLR 268435456]
   \<and> EEPROM_INT_ENDOFPROG = 268435456
   \<and> \<not> bit EEPROM_CMD_ERASE_PRG_PAGE 28
   \<and> map_option bus (EEPROM_EraseProgramPage 0 ((bench 2 [])\<lparr>intstat := EEPROM_INT_ENDOFPROG\<rparr>))
     = Some [Store INTSTATCLR 6, Store ADDR 0, Store CMD 6, Load INTSTAT 268435456,
             Store INTSTATCLR 268435456]
   \<and> map_option busy (EEPROM_EraseProgramPage 0 ((bench 2 [])\<lparr>intstat := EEPROM_INT_ENDOFPROG\<rparr>))
     = Some 1
   \<and> map_option pending
        (EEPROM_EraseProgramPage 0 ((bench 2 [])\<lparr>intstat := EEPROM_INT_ENDOFPROG\<rparr>))
     = Some EEPROM_INT_ENDOFPROG"
  by code_simp


section \<open>Open and release\<close>

lemma sint_lock_succ:
  fixes l :: c_int
  assumes "sint l < 2147483647"
  shows "sint (l + 1) = sint l + 1"
proof -
  have "- 2147483648 \<le> sint l"
    using sint_ge [of l] by simp
  with assms show ?thesis
    by (simp add: sint_word_ariths signed_take_bit_int_eq_self)
qed

lemma perform_Open:
  "perform ok Open pos m =
     Some (if 0 < sint (eeprom_lock m) then - 16 else 0,
           if 0 < sint (eeprom_lock m) then pos else 0,
           m\<lparr>eeprom_lock := eeprom_lock m + 1\<rparr>)"
  by (simp add: eeprom_open_def Let_def word_sless_alt EBUSY_def)

lemma perform_Release:
  "perform ok Release pos m = Some (0, pos, m\<lparr>eeprom_lock := 0\<rparr>)"
  by (simp add: eeprom_release_def)

lemma open_state_refined:
  assumes "set rs \<subseteq> {Open, Release}"
    and "0 \<le> sint (eeprom_lock m)"
    and "opens_countable rs (sint (eeprom_lock m))"
  shows "\<exists>out l. session ok rs pos m = Some (out, m\<lparr>eeprom_lock := l\<rparr>)
           \<and> map fst out = spec_open_state rs (0 < sint (eeprom_lock m))
           \<and> 0 \<le> sint l
           \<and> (0 < sint l \<longleftrightarrow> spec_held rs (0 < sint (eeprom_lock m)))"
  using assms
proof (induction rs arbitrary: pos m)
  case Nil
  have "m = m\<lparr>eeprom_lock := eeprom_lock m\<rparr>"
    by simp
  with Nil show ?case
    by (metis list.simps(8) session.simps(1) spec_held.simps(1) spec_open_state.simps(1))
next
  case (Cons r rs)
  from Cons.prems(1) consider "r = Open" | "r = Release"
    by auto
  then show ?case
  proof cases
    case 1
    let ?m1 = "m\<lparr>eeprom_lock := eeprom_lock m + 1\<rparr>"
    have c: "sint (eeprom_lock m) < 2147483647"
      "opens_countable rs (sint (eeprom_lock m) + 1)"
      using Cons.prems(3) by (simp_all add: 1)
    have s: "sint (eeprom_lock m + 1) = sint (eeprom_lock m) + 1"
      using c(1) by (rule sint_lock_succ)
    have "\<exists>out l. session ok rs (if 0 < sint (eeprom_lock m) then pos else 0) ?m1
                     = Some (out, ?m1\<lparr>eeprom_lock := l\<rparr>)
           \<and> map fst out = spec_open_state rs (0 < sint (eeprom_lock ?m1))
           \<and> 0 \<le> sint l
           \<and> (0 < sint l \<longleftrightarrow> spec_held rs (0 < sint (eeprom_lock ?m1)))"
      using Cons.prems(1,2) c(2) by (intro Cons.IH) (simp_all add: s)
    then obtain out l where o:
      "session ok rs (if 0 < sint (eeprom_lock m) then pos else 0) ?m1
         = Some (out, m\<lparr>eeprom_lock := l\<rparr>)"
      "map fst out = spec_open_state rs True" "0 \<le> sint l"
      "0 < sint l \<longleftrightarrow> spec_held rs True"
      using Cons.prems(2) by (auto simp: s)
    show ?thesis
      using o by (simp add: 1 perform_Open del: perform.simps) (rule exI [of _ l], simp)
  next
    case 2
    let ?m1 = "m\<lparr>eeprom_lock := 0\<rparr>"
    have "\<exists>out l. session ok rs pos ?m1 = Some (out, ?m1\<lparr>eeprom_lock := l\<rparr>)
           \<and> map fst out = spec_open_state rs (0 < sint (eeprom_lock ?m1))
           \<and> 0 \<le> sint l
           \<and> (0 < sint l \<longleftrightarrow> spec_held rs (0 < sint (eeprom_lock ?m1)))"
      using Cons.prems by (intro Cons.IH) (simp_all add: 2)
    then obtain out l where o:
      "session ok rs pos ?m1 = Some (out, m\<lparr>eeprom_lock := l\<rparr>)"
      "map fst out = spec_open_state rs False" "0 \<le> sint l"
      "0 < sint l \<longleftrightarrow> spec_held rs False"
      by auto
    show ?thesis
      using o by (simp add: 2 perform_Release del: perform.simps) (rule exI [of _ l], simp)
  qed
qed

lemma busy_run:
  assumes "1 \<le> sint (eeprom_lock m)"
    and "sint (eeprom_lock m) + int n < 2147483648"
  shows "session ok (replicate n Open) pos m
         = Some (replicate n (- 16, pos), m\<lparr>eeprom_lock := eeprom_lock m + of_nat n\<rparr>)"
  using assms
proof (induction n arbitrary: m)
  case 0
  then show ?case by simp
next
  case (Suc n)
  let ?m1 = "m\<lparr>eeprom_lock := eeprom_lock m + 1\<rparr>"
  have s: "sint (eeprom_lock m + 1) = sint (eeprom_lock m) + 1"
    using Suc.prems by (intro sint_lock_succ) simp
  have "session ok (replicate n Open) pos ?m1
        = Some (replicate n (- 16, pos), ?m1\<lparr>eeprom_lock := eeprom_lock ?m1 + of_nat n\<rparr>)"
    using Suc.prems by (intro Suc.IH) (simp_all add: s)
  then show ?case
    using Suc.prems(1) by (simp add: perform_Open add.assoc del: perform.simps)
qed

lemma session_append:
  "session ok (xs @ ys) pos m =
     (case session ok xs pos m of
        None \<Rightarrow> None
      | Some (out1, m1) \<Rightarrow>
          (case session ok ys (if out1 = [] then pos else snd (last out1)) m1 of
             None \<Rightarrow> None
           | Some (out2, m2) \<Rightarrow> Some (out1 @ out2, m2)))"
proof (induction xs arbitrary: pos m)
  case Nil
  then show ?case
    by (simp split: option.splits)
next
  case (Cons r rs)
  show ?case
  proof (cases "perform ok r pos m")
    case None
    then show ?thesis by simp
  next
    case (Some t)
    obtain ret pos1 m1 where t: "t = (ret, pos1, m1)"
      by (cases t)
    show ?thesis
    proof (cases "session ok rs pos1 m1")
      case None
      then show ?thesis
        using Some t Cons.IH [of pos1 m1] by simp
    next
      case (Some u)
      obtain out1 m2 where u: "u = (out1, m2)"
        by (cases u)
      have "out1 \<noteq> [] \<Longrightarrow> last ((ret, pos1) # out1) = last out1"
        by simp
      then show ?thesis
        using \<open>perform ok r pos m = Some t\<close> t Some u Cons.IH [of pos1 m1]
        by (cases "out1 = []") (simp_all split: option.splits)
    qed
  qed
qed

lemma spec_busy_run: "spec_open_state (replicate n Open) True = replicate n (- 16)"
  by (induction n) simp_all

lemma opens_countable_pairs: "opens_countable (concat (replicate n [Open, Release])) 0"
  by (induction n) simp_all

lemma opens_countable_short:
  "0 \<le> n \<Longrightarrow> n + int (length rs) < 2147483648 \<Longrightarrow> opens_countable rs n"
proof (induction rs arbitrary: n)
  case Nil
  then show ?case by simp
next
  case (Cons r rs)
  then show ?case
    by (cases r) simp_all
qed

text \<open>
  What does hold of open and release. From the free state (lock 0), every interleaving of
  open and release calls in which the opens since the last release can be counted in the
  lock returns what the two-state machine of section 4.5 returns: 0 for an open when free,
  BUSY (-16) for an open when held, 0 for a release; the device is held at the end (lock
  above 0) exactly when the two-state machine is; and no call changes anything of the
  machine but the lock: not the registers with the timing configuration, not the cells,
  not user memory. Any number of open/release pairs is such an interleaving, and so is
  every interleaving of fewer than 2147483648 calls.
\<close>

lemma open_release_while_countable:
  assumes "set rs \<subseteq> {Open, Release}" and "eeprom_lock m = 0" and "opens_countable rs 0"
  shows "(\<exists>out l. session ok rs pos m = Some (out, m\<lparr>eeprom_lock := l\<rparr>)
            \<and> map fst out = spec_open_state rs False
            \<and> (0 < sint l \<longleftrightarrow> spec_held rs False))
       \<and> eeprom_open m = (0, m\<lparr>eeprom_lock := 1\<rparr>)
       \<and> eeprom_open (m\<lparr>eeprom_lock := 1\<rparr>) = (- EBUSY, m\<lparr>eeprom_lock := 2\<rparr>)
       \<and> eeprom_release (m\<lparr>eeprom_lock := 2\<rparr>) = (0, m)"
proof -
  have "\<exists>out l. session ok rs pos m = Some (out, m\<lparr>eeprom_lock := l\<rparr>)
           \<and> map fst out = spec_open_state rs (0 < sint (eeprom_lock m))
           \<and> 0 \<le> sint l
           \<and> (0 < sint l \<longleftrightarrow> spec_held rs (0 < sint (eeprom_lock m)))"
    using assms by (intro open_state_refined) simp_all
  moreover have "m\<lparr>eeprom_lock := 0\<rparr> = m"
    using assms(2) by simp
  ultimately show ?thesis
    using assms(2)
    by (auto simp: eeprom_open_def eeprom_release_def Let_def word_sless_alt)
qed

text \<open>Open, open again (BUSY), release, open.\<close>

lemma open_release_while_countable_example:
  "set [Open, Open, Release, Open] \<subseteq> {Open, Release} \<and> eeprom_lock (bench 0 []) = 0
   \<and> opens_countable [Open, Open, Release, Open] 0
   \<and> (\<exists>out l. session every_buffer [Open, Open, Release, Open] 0 (bench 0 [])
                  = Some (out, (bench 0 [])\<lparr>eeprom_lock := l\<rparr>)
          \<and> map fst out = [0, - 16, 0, 0] \<and> 0 < sint l)
   \<and> eeprom_open (bench 0 []) = (0, (bench 0 [])\<lparr>eeprom_lock := 1\<rparr>)
   \<and> eeprom_open ((bench 0 [])\<lparr>eeprom_lock := 1\<rparr>) = (- EBUSY, (bench 0 [])\<lparr>eeprom_lock := 2\<rparr>)
   \<and> eeprom_release ((bench 0 [])\<lparr>eeprom_lock := 2\<rparr>) = (0, bench 0 [])"
  using open_release_while_countable [of "[Open, Open, Release, Open]" "bench 0 []" every_buffer 0]
  by (simp add: bench_def del: session.simps perform.simps)

text \<open>
  Claim C5. The claim asks that an open while the device is held fails with BUSY, in every
  interleaving of open and release calls, and the source says the same of itself: the lock
  is there so that \<open>only one process can access the driver at a time\<close>. The code breaks
  this after 2147483649 opens and no release. The lock is an \<open>int\<close> that every open
  increments, also the failing ones: the first open returns 0 and holds the device, the
  next 2147483647 return BUSY, the last of them wrapping the lock from 2147483647 to
  -2147483648; the open after that finds a lock that is not above 0 and returns 0, with
  the position of a fresh handle, although nothing has released the device. The two-state
  machine of section 4.5 answers BUSY.
\<close>

theorem open_succeeds_while_held:
  "map_option hd (map_option fst
     (session every_buffer (replicate 2147483649 Open) 0 (bench 0 []))) = Some (0, 0)
   \<and> map_option last (map_option fst
     (session every_buffer (replicate 2147483649 Open) 0 (bench 0 []))) = Some (0, 0)
   \<and> map_option length (map_option fst
     (session every_buffer (replicate 2147483649 Open) 0 (bench 0 []))) = Some 2147483649
   \<and> last (spec_open_state (replicate 2147483649 Open) False) = - 16
   \<and> spec_held (replicate 2147483648 Open) False"
proof -
  let ?m = "bench 0 []"
  have n: "(2147483649::nat) = Suc 2147483646 + 2" "(2147483649::nat) = Suc 2147483648"
    "(2147483648::nat) = Suc 2147483647"
    by simp_all
  have "replicate 2147483649 Open = replicate (Suc 2147483646 + 2) Open"
    by (simp only: n(1) [symmetric])
  also have "\<dots> = replicate (Suc 2147483646) Open @ replicate 2 Open"
    by (rule replicate_add)
  also have "replicate (Suc 2147483646) Open = Open # replicate 2147483646 Open"
    by (rule replicate_Suc)
  also have "replicate 2 Open = [Open, Open]"
    by (simp add: numeral_2_eq_2)
  finally have r: "replicate 2147483649 Open = (Open # replicate 2147483646 Open) @ [Open, Open]" .
  have l0: "eeprom_lock ?m = 0"
    by (simp add: bench_def)
  have first: "perform every_buffer Open 0 ?m = Some (0, 0, ?m\<lparr>eeprom_lock := 1\<rparr>)"
    by (simp add: perform_Open l0 del: perform.simps)
  have run: "session every_buffer (replicate 2147483646 Open) 0 (?m\<lparr>eeprom_lock := 1\<rparr>)
             = Some (replicate 2147483646 (- 16, 0), ?m\<lparr>eeprom_lock := 2147483647\<rparr>)"
    using busy_run [of "?m\<lparr>eeprom_lock := 1\<rparr>" 2147483646 every_buffer 0] by simp
  have a: "session every_buffer (Open # replicate 2147483646 Open) 0 ?m
           = Some ((0, 0) # replicate 2147483646 (- 16, 0), ?m\<lparr>eeprom_lock := 2147483647\<rparr>)"
    by (simp add: first run del: perform.simps)
  have b: "session every_buffer [Open, Open] 0 (?m\<lparr>eeprom_lock := 2147483647\<rparr>)
           = Some ([(- 16, 0), (0, 0)], ?m\<lparr>eeprom_lock := 2147483649\<rparr>)"
    by (simp add: perform_Open del: perform.simps)
  have s: "session every_buffer (replicate 2147483649 Open) 0 ?m
        = Some (((0, 0) # replicate 2147483646 (- 16, 0)) @ [(- 16, 0), (0, 0)],
                ?m\<lparr>eeprom_lock := 2147483649\<rparr>)"
    unfolding r session_append a using b
    by (simp del: session.simps perform.simps)
  have "map_option hd (map_option fst
               (session every_buffer (replicate 2147483649 Open) 0 ?m)) = Some (0, 0)"
    unfolding s by simp
  moreover have "map_option last (map_option fst
               (session every_buffer (replicate 2147483649 Open) 0 ?m)) = Some (0, 0)"
    unfolding s by simp
  moreover have "map_option length (map_option fst
               (session every_buffer (replicate 2147483649 Open) 0 ?m)) = Some 2147483649"
    unfolding s by simp
  moreover have "spec_open_state (replicate (Suc k) Open) False = 0 # replicate k (- 16)" for k
    by (simp add: spec_busy_run)
  from this [of 2147483648]
  have "spec_open_state (replicate 2147483649 Open) False = 0 # replicate 2147483648 (- 16)"
    by (simp only: n(2) [symmetric])
  then have "last (spec_open_state (replicate 2147483649 Open) False) = - 16"
    by simp
  moreover have "spec_held (replicate k Open) True" for k
    by (induction k) simp_all
  then have "spec_held (replicate (Suc k) Open) False" for k
    by simp
  from this [of 2147483647]
  have "spec_held (replicate 2147483648 Open) False"
    by (simp only: n(3) [symmetric])
  ultimately show ?thesis
    by blast
qed

end
